theory Spec2Isabelle
  imports Complex_Main "HOL-Library.Word"
begin

unbundle bit_operations_syntax

section \<open>Embroidery filter: the image pipeline\<close>

text \<open>
  The pipeline is written in TypeScript. Raw pixel buffers (\<open>Buffer\<close>, \<open>Uint8Array\<close>) are lists
  of bytes held as natural numbers below 256, and a store into such a buffer keeps the value
  modulo 256. Calls into the image library (resizing, convolution, PNG encoding, compositing)
  are not part of the repository; where a function needs one, the library operation is a
  parameter of the model.
\<close>

subsection \<open>Background stage (\<open>embroidery.ts\<close>, \<open>applyBackgroundLocal\<close>)\<close>

record raster_info =
  width :: nat
  height :: nat

record 'b composited =
  buffer :: 'b
  info :: raster_info

datatype background_type = BgColor | BgFabric

record background =
  bg_type :: background_type
  bg_hex :: "string option"
  bg_name :: "string option"

record embroidery_options =
  opt_maxColors :: nat
  opt_threadThickness :: nat
  preserveTransparency :: bool
  opt_hatch :: string
  opt_background :: "background option"

record 'b processing_result =
  res_buffer :: 'b
  res_mime :: string
  res_info :: raster_info

text \<open>
  The operations of the image library and of the JavaScript runtime that the background stage
  calls: \<open>parseInt(s, 16)\<close> (\<open>None\<close> for \<open>NaN\<close>), creating a solid image, opening an image file
  (\<open>None\<close> when it cannot be read), resizing it to cover a frame, and compositing one encoded
  image over another.
\<close>

record ('b, 'f) image_lib =
  parseInt16 :: "string \<Rightarrow> int option"
  create_solid :: "nat \<Rightarrow> nat \<Rightarrow> int \<times> int \<times> int \<Rightarrow> 'b"
  open_image :: "string \<Rightarrow> 'f option"
  resize_cover :: "'f \<Rightarrow> nat \<Rightarrow> nat \<Rightarrow> 'b"
  composite_over :: "'b \<Rightarrow> 'b \<Rightarrow> 'b"

text \<open>\<open>x || d\<close> on a string: the empty string and \<open>undefined\<close> are falsy.\<close>

definition str_or :: "string option \<Rightarrow> string \<Rightarrow> string" where
  "str_or s d = (case s of None \<Rightarrow> d | Some v \<Rightarrow> if v = [] then d else v)"

text \<open>\<open>x || d\<close> on the result of \<open>parseInt\<close>: \<open>NaN\<close> and \<open>0\<close> are falsy.\<close>

definition num_or :: "int option \<Rightarrow> int \<Rightarrow> int" where
  "num_or n d = (case n of None \<Rightarrow> d | Some v \<Rightarrow> if v = 0 then d else v)"

text \<open>\<open>s.replace('#', '')\<close> removes the first \<open>#\<close> only.\<close>

fun remove_first_hash :: "string \<Rightarrow> string" where
  "remove_first_hash [] = []"
| "remove_first_hash (c # cs) = (if c = CHR ''#'' then cs else c # remove_first_hash cs)"

definition slice :: "nat \<Rightarrow> nat \<Rightarrow> 'a list \<Rightarrow> 'a list" where
  "slice i j xs = take (j - i) (drop i xs)"

fun first_openable :: "(string \<Rightarrow> 'f option) \<Rightarrow> string list \<Rightarrow> 'f option" where
  "first_openable opn [] = None"
| "first_openable opn (p # ps) =
     (case opn p of Some s \<Rightarrow> Some s | None \<Rightarrow> first_openable opn ps)"

definition fabric_candidates :: "string \<Rightarrow> string list" where
  "fabric_candidates n =
     [''assets/fabrics/'' @ n @ ''.jpg'', ''assets/fabrics/'' @ n @ ''.jpeg'',
      ''assets/fabrics/'' @ n @ ''.png'']"

text \<open>A missing \<open>name\<close> is rendered as the text \<open>undefined\<close> by the template string.\<close>

definition name_text :: "string option \<Rightarrow> string" where
  "name_text n = (case n of None \<Rightarrow> ''undefined'' | Some v \<Rightarrow> v)"

definition is_color_background :: "background option \<Rightarrow> bool" where
  "is_color_background bg = (case bg of None \<Rightarrow> True | Some b \<Rightarrow> bg_type b = BgColor)"

definition backgroundBuffer :: "('b, 'f) image_lib \<Rightarrow> raster_info \<Rightarrow> background option \<Rightarrow> 'b" where
  "backgroundBuffer lib ri bg =
     (if is_color_background bg then
        (let hex = remove_first_hash
                     (str_or (case bg of None \<Rightarrow> None | Some b \<Rightarrow> bg_hex b) ''#E5E0D6'');
             r = num_or (parseInt16 lib (slice 0 2 hex)) 229;
             g = num_or (parseInt16 lib (slice 2 4 hex)) 224;
             b = num_or (parseInt16 lib (slice 4 6 hex)) 214
         in create_solid lib (width ri) (height ri) (r, g, b))
      else
        (case first_openable (open_image lib)
                (fabric_candidates (name_text (case bg of None \<Rightarrow> None | Some b \<Rightarrow> bg_name b))) of
           None \<Rightarrow> create_solid lib (width ri) (height ri) (229, 224, 214)
         | Some s \<Rightarrow> resize_cover lib s (width ri) (height ri)))"

definition applyBackgroundLocal ::
  "('b, 'f) image_lib \<Rightarrow> 'b composited \<Rightarrow> embroidery_options \<Rightarrow> 'b processing_result" where
  "applyBackgroundLocal lib composited options =
     (if preserveTransparency options then
        \<lparr>res_buffer = buffer composited, res_mime = ''image/png'', res_info = info composited\<rparr>
      else
        \<lparr>res_buffer = composite_over lib (backgroundBuffer lib (info composited) (opt_background options))
                                      (buffer composited),
         res_mime = ''image/png'', res_info = info composited\<rparr>)"

subsection \<open>Seeded random numbers (\<open>utils.ts\<close>, \<open>seededRandom\<close>)\<close>

text \<open>
  The generator keeps one unsigned 32-bit state. \<open>seed >>> 0\<close> and the \<open>>>> 0\<close> of every call
  reduce modulo \<open>2^32\<close>; the product and sum before the reduction stay below \<open>2^53\<close>, so the
  double arithmetic of the source is exact and the state is a \<open>32 word\<close>. The returned number is
  the quotient of two integers; it is held as the exact rational of which the double is the
  rounding.
\<close>

definition seed_state :: "int \<Rightarrow> 32 word" where
  "seed_state seed = word_of_int seed"

definition lcg_next :: "32 word \<Rightarrow> 32 word" where
  "lcg_next s = s * 1664525 + 1013904223"

definition lcg_output :: "32 word \<Rightarrow> rat" where
  "lcg_output s = of_nat (unat (s AND 0xfffffff)) / 0xfffffff"

text \<open>One call of the closure returned by \<open>seededRandom\<close>: the value and the new state.\<close>

definition seededRandom_call :: "32 word \<Rightarrow> rat \<times> 32 word" where
  "seededRandom_call s = (let s' = lcg_next s in (lcg_output s', s'))"

subsection \<open>Typed arrays\<close>

text \<open>
  Reading a typed array beyond its end gives \<open>undefined\<close>; the source always supplies a
  default (\<open>x ?? d\<close>) or tests the value for truth, where \<open>undefined\<close> counts like \<open>0\<close>.
  A store beyond the end is ignored, as \<open>xs[i := v]\<close> is.
\<close>

definition rd :: "'a list \<Rightarrow> nat \<Rightarrow> 'a \<Rightarrow> 'a" where
  "rd xs i d = (if i < length xs then xs ! i else d)"

subsection \<open>Dashed edges (\<open>edges.ts\<close>, the stitch loop of \<open>detectEdges\<close>)\<close>

definition stitchLen :: "nat \<Rightarrow> nat" where
  "stitchLen t = max 2 t"

definition dashPixel :: "nat \<Rightarrow> nat list \<Rightarrow> nat \<Rightarrow> nat \<Rightarrow> nat \<Rightarrow> nat list \<Rightarrow> nat list" where
  "dashPixel sl edgeMap w y x stitched =
     (let i = y * w + x
      in if rd edgeMap i 0 = 0 then stitched
         else stitched[i := (if (x div sl) mod 2 = 0 then 255 else 0)])"

text \<open>
  \<open>for (y = 0; y < height; y++) for (x = 0; x < width; x++) \<dots>\<close> over a buffer of zeros as
  long as the edge map.
\<close>

definition dashEdges :: "nat \<Rightarrow> nat list \<Rightarrow> nat \<Rightarrow> nat \<Rightarrow> nat list" where
  "dashEdges t edgeMap w h =
     fold (\<lambda>y. fold (dashPixel (stitchLen t) edgeMap w y) [0..<w]) [0..<h]
       (replicate (length edgeMap) 0)"

subsection \<open>Distance transform (\<open>utils.ts\<close>, \<open>distanceTransform\<close>)\<close>

text \<open>
  The distances live in a \<open>Float32Array\<close> and are combined in double precision. Every number
  that occurs is \<open>0\<close> or at least \<open>1\<close>, hence an integer multiple of \<open>2^-52\<close>; a distance is held
  as that integer, so \<open>fl_one\<close> stands for \<open>1.0\<close>, and rounding to 53 and to 24 significant bits
  (nearest, ties to even) is written out. No number reaches the overflow threshold of either
  format.
\<close>

fun bitlen :: "int \<Rightarrow> nat" where
  "bitlen n = (if n \<le> 0 then 0 else Suc (bitlen (n div 2)))"

declare bitlen.simps [simp del]

definition rne :: "int \<Rightarrow> nat \<Rightarrow> int" where
  "rne n k = (let q = n div 2 ^ k; r = n mod 2 ^ k
              in if 2 * r < 2 ^ k \<or> (2 * r = 2 ^ k \<and> even q) then q else q + 1)"

definition round_sig :: "nat \<Rightarrow> int \<Rightarrow> int" where
  "round_sig p n = (let k = bitlen n - p in rne n k * 2 ^ k)"

definition to_double :: "int \<Rightarrow> int" where
  "to_double n = round_sig 53 n"

definition to_float32 :: "int \<Rightarrow> int" where
  "to_float32 n = round_sig 24 n"

definition fl_one :: int where
  "fl_one = 2 ^ 52"

text \<open>The double nearest to \<open>1.4\<close> is \<open>6305039478318694 / 2^52\<close>.\<close>

definition fl_1_4 :: int where
  "fl_1_4 = 6305039478318694"

text \<open>\<open>inf = 1e9\<close>.\<close>

definition fl_inf :: int where
  "fl_inf = 1000000000 * 2 ^ 52"

text \<open>\<open>Math.min(best, Number(dist[j] ?? inf) + c)\<close>, the sum taken in double precision.\<close>

definition relax :: "int list \<Rightarrow> nat \<Rightarrow> int \<Rightarrow> int \<Rightarrow> int" where
  "relax dst j c best = min best (to_double (rd dst j fl_inf + c))"

definition initDist :: "nat list \<Rightarrow> nat \<Rightarrow> nat \<Rightarrow> int list" where
  "initDist src w h = map (\<lambda>i. to_float32 (if rd src i 0 > 0 then 0 else fl_inf)) [0..<w * h]"

definition fwdPixel :: "nat \<Rightarrow> nat \<Rightarrow> nat \<Rightarrow> nat \<Rightarrow> int list \<Rightarrow> int list" where
  "fwdPixel w h y x dst =
     (let i = y * w + x;
          best = rd dst i fl_inf;
          best = (if x > 0 then relax dst (i - 1) fl_one best else best);
          best = (if y > 0 then relax dst (i - w) fl_one best else best);
          best = (if x > 0 \<and> y > 0 then relax dst (i - w - 1) fl_1_4 best else best);
          best = (if x + 1 < w \<and> y > 0 then relax dst (i - w + 1) fl_1_4 best else best)
      in dst[i := to_float32 best])"

definition bwdPixel :: "nat \<Rightarrow> nat \<Rightarrow> nat \<Rightarrow> nat \<Rightarrow> int list \<Rightarrow> int list" where
  "bwdPixel w h y x dst =
     (let i = y * w + x;
          best = rd dst i 0;
          best = (if x + 1 < w then relax dst (i + 1) fl_one best else best);
          best = (if y + 1 < h then relax dst (i + w) fl_one best else best);
          best = (if x + 1 < w \<and> y + 1 < h then relax dst (i + w + 1) fl_1_4 best else best);
          best = (if x > 0 \<and> y + 1 < h then relax dst (i + w - 1) fl_1_4 best else best)
      in dst[i := to_float32 best])"

definition fwdPass :: "nat \<Rightarrow> nat \<Rightarrow> int list \<Rightarrow> int list" where
  "fwdPass w h dst = fold (\<lambda>y. fold (fwdPixel w h y) [0..<w]) [0..<h] dst"

definition bwdPass :: "nat \<Rightarrow> nat \<Rightarrow> int list \<Rightarrow> int list" where
  "bwdPass w h dst = fold (\<lambda>y. fold (bwdPixel w h y) (rev [0..<w])) (rev [0..<h]) dst"

definition distanceTransform :: "nat list \<Rightarrow> nat \<Rightarrow> nat \<Rightarrow> int list" where
  "distanceTransform src w h = bwdPass w h (fwdPass w h (initDist src w h))"

subsection \<open>Neighbours, and the spacing of single precision numbers\<close>

text \<open>
  The pixel \<open>(x, y)\<close> of a raster of width \<open>w\<close> is the entry \<open>y * w + x\<close>. The two passes of
  \<open>distanceTransform\<close> read the eight pixels around a pixel, at the cost 1 for a pixel of the
  same row or column and 1.4 for a diagonal one.
\<close>

definition pixel :: "nat \<Rightarrow> 'a list \<Rightarrow> nat \<Rightarrow> nat \<Rightarrow> 'a" where
  "pixel w xs x y = xs ! (y * w + x)"

definition adjacent :: "nat \<Rightarrow> nat \<Rightarrow> nat \<Rightarrow> nat \<Rightarrow> bool" where
  "adjacent x y x' y' \<longleftrightarrow>
     (x \<noteq> x' \<or> y \<noteq> y') \<and> x \<le> x' + 1 \<and> x' \<le> x + 1 \<and> y \<le> y' + 1 \<and> y' \<le> y + 1"

definition stepCost :: "nat \<Rightarrow> nat \<Rightarrow> nat \<Rightarrow> nat \<Rightarrow> int" where
  "stepCost x y x' y' = (if x = x' \<or> y = y' then fl_one else fl_1_4)"

text \<open>
  One relaxation as it reaches the array: \<open>dist[j] + c\<close> in double precision, stored in single
  precision.
\<close>

definition step32 :: "int \<Rightarrow> int \<Rightarrow> int" where
  "step32 c v = to_float32 (to_double (v + c))"

definition is_single :: "int \<Rightarrow> bool" where
  "is_single v \<longleftrightarrow> to_float32 v = v"

text \<open>
  The numbers from \<open>2^(k-53)\<close> up to \<open>2^(k-52)\<close> form the binade \<open>k\<close>; numbers below 1 are counted
  to the binade of 1. \<open>ulp32\<close> is the spacing of the single precision numbers of a binade.
\<close>

definition binade :: "int \<Rightarrow> nat" where
  "binade v = max 53 (bitlen v)"

definition ulp32 :: "int \<Rightarrow> int" where
  "ulp32 v = 2 ^ (binade v - 24)"

text \<open>
  The analysis of the step bounds lets the bound between two neighbours drift by a few
  spacings: 18 within a binade, and 3 more for each unit by which the value has entered the
  last 4 units of its binade, where the larger of the two values is already rounded on the
  coarser grid of the next binade. \<open>reach c v\<close> is the bound on the difference to a value \<open>v\<close>
  at cost \<open>c\<close>: the cost rounded up to the grid, and the drift.
\<close>

definition nearEnd :: "int \<Rightarrow> int" where
  "nearEnd v = max 0 ((v + 4 * fl_one - 2 ^ binade v) div fl_one + 1)"

definition drift :: "int \<Rightarrow> int" where
  "drift v = ulp32 v * (18 + 3 * nearEnd v)"

definition reach :: "int \<Rightarrow> int \<Rightarrow> int" where
  "reach c v = (c div (2 * ulp32 v) + 1) * (2 * ulp32 v) + drift v"

text \<open>
  What the forward pass establishes of its result \<open>F\<close>, and the backward pass of its result
  \<open>D\<close>: a value is not above the step from a neighbour read by the pass, and it is the value
  it had before the pass or the step from one of these neighbours.
\<close>

definition fwd_closed :: "nat \<Rightarrow> nat \<Rightarrow> (nat \<Rightarrow> nat \<Rightarrow> int) \<Rightarrow> bool" where
  "fwd_closed w h F \<longleftrightarrow>
     (\<forall>x y. x + 1 < w \<and> y < h \<longrightarrow> F (x + 1) y \<le> step32 fl_one (F x y)) \<and>
     (\<forall>x y. x < w \<and> y + 1 < h \<longrightarrow> F x (y + 1) \<le> step32 fl_one (F x y)) \<and>
     (\<forall>x y. x + 1 < w \<and> y + 1 < h \<longrightarrow> F (x + 1) (y + 1) \<le> step32 fl_1_4 (F x y)) \<and>
     (\<forall>x y. x + 1 < w \<and> y + 1 < h \<longrightarrow> F x (y + 1) \<le> step32 fl_1_4 (F (x + 1) y)) \<and>
     (\<forall>x y. x < w \<and> y < h \<longrightarrow>
        F x y = 0 \<or> F x y = fl_inf \<or>
        (0 < x \<and> F x y = step32 fl_one (F (x - 1) y)) \<or>
        (0 < y \<and> F x y = step32 fl_one (F x (y - 1))) \<or>
        (0 < x \<and> 0 < y \<and> F x y = step32 fl_1_4 (F (x - 1) (y - 1))) \<or>
        (x + 1 < w \<and> 0 < y \<and> F x y = step32 fl_1_4 (F (x + 1) (y - 1))))"

definition bwd_closed ::
  "nat \<Rightarrow> nat \<Rightarrow> (nat \<Rightarrow> nat \<Rightarrow> int) \<Rightarrow> (nat \<Rightarrow> nat \<Rightarrow> int) \<Rightarrow> bool" where
  "bwd_closed w h F D \<longleftrightarrow>
     (\<forall>x y. x < w \<and> y < h \<longrightarrow>
        is_single (D x y) \<and> (D x y = 0 \<or> fl_one \<le> D x y) \<and> D x y \<le> F x y \<and>
        (D x y = F x y \<or>
         (x + 1 < w \<and> D x y = step32 fl_one (D (x + 1) y)) \<or>
         (y + 1 < h \<and> D x y = step32 fl_one (D x (y + 1))) \<or>
         (x + 1 < w \<and> y + 1 < h \<and> D x y = step32 fl_1_4 (D (x + 1) (y + 1))) \<or>
         (0 < x \<and> y + 1 < h \<and> D x y = step32 fl_1_4 (D (x - 1) (y + 1))))) \<and>
     (\<forall>x y. x + 1 < w \<and> y < h \<longrightarrow> D x y \<le> step32 fl_one (D (x + 1) y)) \<and>
     (\<forall>x y. x < w \<and> y + 1 < h \<longrightarrow> D x y \<le> step32 fl_one (D x (y + 1))) \<and>
     (\<forall>x y. x + 1 < w \<and> y + 1 < h \<longrightarrow> D x y \<le> step32 fl_1_4 (D (x + 1) (y + 1))) \<and>
     (\<forall>x y. x + 1 < w \<and> y + 1 < h \<longrightarrow> D (x + 1) y \<le> step32 fl_1_4 (D x (y + 1)))"

subsection \<open>Warnings (\<open>warnings.ts\<close>, \<open>computeWarnings\<close>)\<close>

text \<open>
  \<open>minStroke\<close> starts at \<open>Infinity\<close>, here \<open>None\<close>; doubling a distance is exact.
\<close>

definition min_inf :: "int option \<Rightarrow> int \<Rightarrow> int option" where
  "min_inf m v = (case m of None \<Rightarrow> Some v | Some u \<Rightarrow> Some (min u v))"

definition less_inf :: "int option \<Rightarrow> int \<Rightarrow> bool" where
  "less_inf m v = (case m of None \<Rightarrow> False | Some u \<Rightarrow> u < v)"

definition strokeStep :: "nat list \<Rightarrow> int list \<Rightarrow> nat \<Rightarrow> int option \<times> nat \<Rightarrow> int option \<times> nat" where
  "strokeStep alphaMask distIn i st =
     (if rd alphaMask i 0 \<noteq> 0
      then (min_inf (fst st) (rd distIn i 0 * 2), Suc (snd st))
      else st)"

definition strokeScan :: "nat list \<Rightarrow> int list \<Rightarrow> int option \<times> nat" where
  "strokeScan alphaMask distIn = fold (strokeStep alphaMask distIn) [0..<length distIn] (None, 0)"

definition thinWarning :: string where
  "thinWarning = ''Thin strokes may not embroider cleanly''"

definition denseWarning :: string where
  "denseWarning = ''Dense detail may fill in on fabric''"

fun digits :: "nat \<Rightarrow> string" where
  "digits n = (if n < 10 then [char_of (48 + n)] else digits (n div 10) @ [char_of (48 + n mod 10)])"

declare digits.simps [simp del]

definition reducedWarning :: "nat \<Rightarrow> string" where
  "reducedWarning maxCols = ''Reduced colors to '' @ digits maxCols"

text \<open>
  \<open>on / edgeMask.length > 0.12\<close>: the quotient of two integers below \<open>2^32\<close> exceeds the double
  \<open>0.12\<close> exactly when the rational does, and \<open>0 / 0\<close> is \<open>NaN\<close>, which exceeds nothing.
\<close>

definition edgeDense :: "nat list \<Rightarrow> bool" where
  "edgeDense edgeMask = (length (filter (\<lambda>v. v \<noteq> 0) edgeMask) * 100 > 12 * length edgeMask)"

definition computeWarnings ::
  "nat list \<Rightarrow> nat \<Rightarrow> nat \<Rightarrow> nat \<Rightarrow> nat list option \<Rightarrow> nat option \<Rightarrow> nat option \<Rightarrow> string list" where
  "computeWarnings alphaMask w h thickness edgeMask maxCols paletteSize =
     (let distIn = distanceTransform alphaMask w h;
          (minStroke, samples) = strokeScan alphaMask distIn;
          w1 = (if samples > 0 \<and> less_inf minStroke (int thickness * fl_one)
                then [thinWarning] else []);
          w2 = (case edgeMask of None \<Rightarrow> []
                | Some e \<Rightarrow> if edgeDense e then [denseWarning] else []);
          w3 = (case (maxCols, paletteSize) of
                  (Some m, Some p) \<Rightarrow> if p > m then [reducedWarning m] else []
                | _ \<Rightarrow> [])
      in w1 @ w2 @ w3)"

subsection \<open>Quantizer (\<open>quantize.ts\<close>)\<close>

text \<open>
  A palette entry \<open>{r, g, b, a}\<close> holds JavaScript numbers, not bytes. The frequency map of
  \<open>extractPaletteFast\<close> is keyed by the text \<open>r,g,b,a\<close> of the four numbers, which names an
  entry uniquely, so the map is an association list from entries to counts in insertion
  order.
\<close>

record color =
  cr :: nat
  cg :: nat
  cb :: nat
  ca :: nat

text \<open>\<open>rgba[i] || d\<close>: \<open>undefined\<close> and \<open>0\<close> are falsy.\<close>

definition byte_or :: "nat list \<Rightarrow> nat \<Rightarrow> nat \<Rightarrow> nat" where
  "byte_or xs i d = (if rd xs i 0 = 0 then d else rd xs i 0)"

text \<open>\<open>Math.round(v / 16) * 16\<close>; \<open>Math.round\<close> rounds halves up.\<close>

definition round16 :: "nat \<Rightarrow> nat" where
  "round16 v = (v + 8) div 16 * 16"

definition sampleAt :: "nat list \<Rightarrow> nat \<Rightarrow> color" where
  "sampleAt rgba i =
     \<lparr>cr = round16 (byte_or rgba i 0), cg = round16 (byte_or rgba (i + 1) 0),
      cb = round16 (byte_or rgba (i + 2) 0), ca = byte_or rgba (i + 3) 255\<rparr>"

fun bump :: "color \<Rightarrow> (color \<times> nat) list \<Rightarrow> (color \<times> nat) list" where
  "bump c [] = [(c, 1)]"
| "bump c ((k, n) # m) = (if k = c then (k, Suc n) # m else (k, n) # bump c m)"

text \<open>\<open>for (let i = 0; i < rgba.length; i += 4 * step)\<close> with \<open>step = 4\<close>.\<close>

function countLoop :: "nat list \<Rightarrow> nat \<Rightarrow> (color \<times> nat) list \<Rightarrow> (color \<times> nat) list" where
  "countLoop rgba i m =
     (if i < length rgba then countLoop rgba (i + 16) (bump (sampleAt rgba i) m) else m)"
  by pat_completeness auto
termination
  by (relation "measure (\<lambda>(rgba, i, m). length rgba - i)") auto

declare countLoop.simps [simp del]

text \<open>
  \<open>sort((a, b) => b.count - a.count)\<close> is a stable sort by descending count, as
  \<open>sort_key\<close> on the negated count is.
\<close>

definition extractPaletteFast :: "nat list \<Rightarrow> nat \<Rightarrow> nat \<Rightarrow> nat \<Rightarrow> color list" where
  "extractPaletteFast rgba w h maxCols =
     map fst (take maxCols (sort_key (\<lambda>e. - int (snd e)) (countLoop rgba 0 [])))"

text \<open>
  \<open>extractPaletteFromImage\<close>, the extractor of the earlier quantizer: the first \<open>k\<close> distinct
  colours in scan order. \<open>Number(rgba[j])\<close> is \<open>NaN\<close>, here \<open>None\<close>, beyond the end of the buffer.
\<close>

type_synonym raw_color = "nat option \<times> nat option \<times> nat option \<times> nat option"

definition chan :: "nat list \<Rightarrow> nat \<Rightarrow> nat option" where
  "chan xs j = (if j < length xs then Some (xs ! j) else None)"

definition rawAt :: "nat list \<Rightarrow> nat \<Rightarrow> raw_color" where
  "rawAt rgba i = (chan rgba i, chan rgba (i + 1), chan rgba (i + 2), chan rgba (i + 3))"

function paletteLoop :: "nat list \<Rightarrow> nat \<Rightarrow> nat \<Rightarrow> raw_color list \<Rightarrow> raw_color list" where
  "paletteLoop rgba k i palette =
     (if i < length rgba \<and> length palette < k
      then paletteLoop rgba k (i + 4)
             (if rawAt rgba i \<in> set palette then palette else palette @ [rawAt rgba i])
      else palette)"
  by pat_completeness auto
termination
  by (relation "measure (\<lambda>(rgba, k, i, palette). length rgba - i)") auto

declare paletteLoop.simps [simp del]

definition extractPaletteFromImage :: "nat list \<Rightarrow> nat \<Rightarrow> nat \<Rightarrow> nat \<Rightarrow> raw_color list" where
  "extractPaletteFromImage rgba w h k = paletteLoop rgba k 0 []"

text \<open>The sampled pixels in scan order, rounded as the loop rounds them.\<close>

function samplesFrom :: "nat list \<Rightarrow> nat \<Rightarrow> color list" where
  "samplesFrom rgba i =
     (if i < length rgba then sampleAt rgba i # samplesFrom rgba (i + 16) else [])"
  by pat_completeness auto
termination
  by (relation "measure (\<lambda>(rgba, i). length rgba - i)") auto

declare samplesFrom.simps [simp del]

definition sampledColors :: "nat list \<Rightarrow> color list" where
  "sampledColors rgba = samplesFrom rgba 0"

definition firstIndex :: "'a list \<Rightarrow> 'a \<Rightarrow> nat" where
  "firstIndex xs c = length (takeWhile (\<lambda>x. x \<noteq> c) xs)"

text \<open>
  \<open>applyPaletteToImage\<close>: the nearest palette entry by squared distance; \<open>minDistance\<close> starts
  at \<open>Infinity\<close>, here \<open>None\<close>, and \<open>closestColor\<close> at \<open>palette[0]\<close>, which is \<open>undefined\<close> for
  an empty palette.
\<close>

definition sqdist :: "nat \<Rightarrow> nat \<Rightarrow> nat \<Rightarrow> color \<Rightarrow> int" where
  "sqdist r g b c =
     (int r - int (cr c)) * (int r - int (cr c)) + (int g - int (cg c)) * (int g - int (cg c)) +
     (int b - int (cb c)) * (int b - int (cb c))"

definition closestStep ::
  "nat \<Rightarrow> nat \<Rightarrow> nat \<Rightarrow> color \<Rightarrow> color option \<times> int option \<Rightarrow> color option \<times> int option" where
  "closestStep r g b c st =
     (let distance = sqdist r g b c
      in case snd st of
           None \<Rightarrow> (Some c, Some distance)
         | Some minDistance \<Rightarrow> if distance < minDistance then (Some c, Some distance) else st)"

definition first_entry :: "color list \<Rightarrow> color option" where
  "first_entry palette = (case palette of [] \<Rightarrow> None | p # _ \<Rightarrow> Some p)"

definition closestColor :: "color list \<Rightarrow> nat \<Rightarrow> nat \<Rightarrow> nat \<Rightarrow> color option" where
  "closestColor palette r g b = fst (fold (closestStep r g b) palette (first_entry palette, None))"

text \<open>
  A pixel cut short by the end of the buffer has an \<open>undefined\<close> channel; its distances are
  \<open>NaN\<close>, no comparison succeeds and \<open>palette[0]\<close> stays.
\<close>

definition pixelClosest :: "color list \<Rightarrow> nat list \<Rightarrow> nat \<Rightarrow> color option" where
  "pixelClosest palette rgbaData i =
     (if i + 2 < length rgbaData
      then closestColor palette (rgbaData ! i) (rgbaData ! (i + 1)) (rgbaData ! (i + 2))
      else first_entry palette)"

datatype error = TypeError | QuantizationFailed

function remapLoop :: "color list \<Rightarrow> nat list \<Rightarrow> nat \<Rightarrow> nat list \<Rightarrow> error + nat list" where
  "remapLoop palette rgbaData i quantized =
     (if i < length rgbaData then
        (case pixelClosest palette rgbaData i of
           None \<Rightarrow> Inl TypeError
         | Some c \<Rightarrow>
             remapLoop palette rgbaData (i + 4)
               (quantized[i := cr c mod 256, i + 1 := cg c mod 256, i + 2 := cb c mod 256,
                          i + 3 := rd rgbaData (i + 3) 0]))
      else Inr quantized)"
  by pat_completeness auto
termination
  by (relation "measure (\<lambda>(palette, rgbaData, i, quantized). length rgbaData - i)") auto

declare remapLoop.simps [simp del]

definition applyPaletteToImage :: "nat list \<Rightarrow> color list \<Rightarrow> error + nat list" where
  "applyPaletteToImage rgbaData palette =
     remapLoop palette rgbaData 0 (replicate (length rgbaData) 0)"

record quantization_result =
  q_data :: "nat list"
  q_info :: raster_info
  q_palette :: "color list"
  q_paletteSize :: nat

text \<open>
  \<open>targetMax = Math.min(400, Math.max(w, h) * 0.6)\<close> and
  \<open>scale = Math.max(1, Math.ceil(Math.max(w, h) / targetMax))\<close>, in exact arithmetic.
\<close>

definition quantScale :: "raster_info \<Rightarrow> nat" where
  "quantScale ri =
     (let m = max (width ri) (height ri);
          targetMax = min 400 (rat_of_nat m * 6 / 10)
      in nat (max 1 \<lceil>rat_of_nat m / targetMax\<rceil>))"

text \<open>
  \<open>quantizeColors\<close> on a four-channel image. The nearest-kernel resize of the image library
  is the parameter \<open>resizeNearest\<close>; it yields the downscaled RGBA bytes or fails. Every
  exception is rethrown as \<open>Color quantization failed\<close>.
\<close>

definition quantizeColors ::
  "(nat list \<Rightarrow> raster_info \<Rightarrow> nat \<Rightarrow> nat \<Rightarrow> nat list option) \<Rightarrow>
   nat list \<Rightarrow> raster_info \<Rightarrow> nat \<Rightarrow> error + quantization_result" where
  "quantizeColors resizeNearest data ri maxCols =
     (let scale = quantScale ri;
          dw = width ri div scale;
          dh = height ri div scale
      in case resizeNearest data ri dw dh of
           None \<Rightarrow> Inl QuantizationFailed
         | Some downscaled \<Rightarrow>
             (let usedPalette = extractPaletteFast downscaled dw dh maxCols
              in case applyPaletteToImage data usedPalette of
                   Inl e \<Rightarrow> Inl QuantizationFailed
                 | Inr quantizedFull \<Rightarrow>
                     Inr \<lparr>q_data = quantizedFull, q_info = ri, q_palette = usedPalette,
                          q_paletteSize = length usedPalette\<rparr>))"

subsection \<open>Textures (\<open>textures.ts\<close>)\<close>




datatype texture_error = TextureGenerationFailed















subsection \<open>Orientation bins (\<open>utils.ts\<close>, \<open>binsFromGradients\<close>; \<open>orientation.ts\<close>)\<close>

text \<open>
  \<open>Math.atan2\<close> and the scaling of the angle are taken in the reals. The two clamps and the
  store into the \<open>Uint8Array\<close> are \<open>binClamp\<close>, applied to the floor of the scaled angle.
\<close>

definition atan2 :: "real \<Rightarrow> real \<Rightarrow> real" where
  "atan2 y x =
     (if x > 0 then arctan (y / x)
      else if x < 0 then (if y \<ge> 0 then arctan (y / x) + pi else arctan (y / x) - pi)
      else if y > 0 then pi / 2
      else if y < 0 then - pi / 2
      else 0)"

definition binClamp :: "nat \<Rightarrow> int \<Rightarrow> nat" where
  "binClamp numBins b0 =
     (let b = (if b0 < 0 then 0 else b0);
          b = (if b \<ge> int numBins then int numBins - 1 else b)
      in nat (b mod 256))"

definition binOf :: "nat \<Rightarrow> real \<Rightarrow> real \<Rightarrow> nat" where
  "binOf numBins gy gx =
     (let a = atan2 gy gx;
          a = (if a < 0 then a + pi else a)
      in binClamp numBins \<lfloor>a * (real numBins / pi)\<rfloor>)"

definition binsFromGradients :: "real list \<Rightarrow> real list \<Rightarrow> nat \<Rightarrow> nat \<Rightarrow> nat \<Rightarrow> nat list" where
  "binsFromGradients gx gy w h numBins =
     map (\<lambda>i. binOf numBins (rd gy i 0) (rd gx i 0)) [0..<w * h]"

definition numBinsFor :: "string \<Rightarrow> string \<Rightarrow> nat" where
  "numBinsFor orientationMethod mode =
     (if orientationMethod = ''binned-8'' then (if mode = ''logo'' then 4 else 6)
      else (if mode = ''logo'' then 8 else 12))"

text \<open>
  \<open>computeOrientation\<close> from the gradients on: \<open>gx\<close> and \<open>gy\<close> are the Sobel responses the
  image library delivers, and \<open>resizeNearest src w h W H\<close> is its resize with the nearest
  kernel from \<open>w\<close> by \<open>h\<close> to \<open>W\<close> by \<open>H\<close>.
\<close>

definition computeOrientationBins ::
  "(nat list \<Rightarrow> nat \<Rightarrow> nat \<Rightarrow> nat \<Rightarrow> nat \<Rightarrow> nat list) \<Rightarrow>
   real list \<Rightarrow> real list \<Rightarrow> raster_info \<Rightarrow> string \<Rightarrow> string \<Rightarrow> nat list" where
  "computeOrientationBins resizeNearest gx gy ri orientationMethod mode =
     (let analysisSize = (if mode = ''logo'' then 300 else 400);
          dw = min (width ri) analysisSize;
          dh = min (height ri) analysisSize;
          numBins = numBinsFor orientationMethod mode;
          orientationBinsDownscaled = binsFromGradients gx gy dw dh numBins
      in resizeNearest orientationBinsDownscaled dw dh (width ri) (height ri))"

section \<open>Properties\<close>

subsection \<open>Background stage\<close>

text \<open>
  C10. With \<open>preserveTransparency\<close> set, the background stage hands back the compositor's
  output as it is: the same buffer, the same width and height, and the mime type
  \<open>image/png\<close>, whatever the background option says.
\<close>

theorem applyBackgroundLocal_preserve:
  "preserveTransparency options \<Longrightarrow>
   applyBackgroundLocal lib composited options =
     \<lparr>res_buffer = buffer composited, res_mime = ''image/png'', res_info = info composited\<rparr>"
  by (simp add: applyBackgroundLocal_def)

theorem applyBackgroundLocal_preserve_witness:
  "preserveTransparency
     \<lparr>opt_maxColors = 8, opt_threadThickness = 3, preserveTransparency = True,
      opt_hatch = ''diagonal'',
      opt_background = Some \<lparr>bg_type = BgColor, bg_hex = Some ''#102030'', bg_name = None\<rparr>\<rparr> \<and>
   applyBackgroundLocal
     \<lparr>parseInt16 = (\<lambda>s. None), create_solid = (\<lambda>w h c. [0::nat]),
      open_image = (\<lambda>p. (None :: unit option)), resize_cover = (\<lambda>f w h. [1]),
      composite_over = (\<lambda>bg fg. bg @ fg)\<rparr>
     \<lparr>buffer = [7, 7, 7, 255], info = \<lparr>width = 1, height = 1\<rparr>\<rparr>
     \<lparr>opt_maxColors = 8, opt_threadThickness = 3, preserveTransparency = True,
      opt_hatch = ''diagonal'',
      opt_background = Some \<lparr>bg_type = BgColor, bg_hex = Some ''#102030'', bg_name = None\<rparr>\<rparr> =
     \<lparr>res_buffer = [7, 7, 7, 255], res_mime = ''image/png'',
      res_info = \<lparr>width = 1, height = 1\<rparr>\<rparr>"
  using applyBackgroundLocal_preserve
    [of "\<lparr>opt_maxColors = 8, opt_threadThickness = 3, preserveTransparency = True,
          opt_hatch = ''diagonal'',
          opt_background = Some \<lparr>bg_type = BgColor, bg_hex = Some ''#102030'', bg_name = None\<rparr>\<rparr>"
        "\<lparr>parseInt16 = (\<lambda>s. None), create_solid = (\<lambda>w h c. [0::nat]),
          open_image = (\<lambda>p. (None :: unit option)), resize_cover = (\<lambda>f w h. [1]),
          composite_over = (\<lambda>bg fg. bg @ fg)\<rparr>"
        "\<lparr>buffer = [7, 7, 7, 255], info = \<lparr>width = 1, height = 1\<rparr>\<rparr>"]
  by simp

subsection \<open>Seeded random numbers\<close>

lemma lcg_no_double_overflow:
  "unat (s :: 32 word) * 1664525 + 1013904223 < 2 ^ 53"
proof -
  have "unat s < 2 ^ 32" using unsigned_less [of s] by simp
  then show ?thesis by simp
qed

lemma low28: "unat ((s::32 word) AND 0xfffffff) = unat s mod 2 ^ 28"
proof -
  have "(0xfffffff :: 32 word) = mask 28" by (simp add: mask_eq_exp_minus_1)
  then have "s AND 0xfffffff = take_bit 28 s" by (simp add: take_bit_eq_mask)
  then have "unat (s AND 0xfffffff) = take_bit 28 (unat s)"
    by (simp add: unsigned_take_bit_eq)
  then show ?thesis by (simp add: take_bit_eq_mod)
qed

lemma lcg_next_unat: "unat (lcg_next s) = (unat s * 1664525 + 1013904223) mod 2 ^ 32"
  unfolding lcg_next_def
  by (simp add: unat_word_ariths mod_add_left_eq)

text \<open>
  C7, as the code has it. Every call replaces the state \<open>s\<close> by
  \<open>(s * 1664525 + 1013904223) mod 2^32\<close> and returns the low 28 bits of the new state divided
  by \<open>2^28 - 1\<close>, a number of the closed interval from 0 to 1.
\<close>

theorem seededRandom_call_spec:
  "snd (seededRandom_call s) = lcg_next s \<and>
   unat (lcg_next s) = (unat s * 1664525 + 1013904223) mod 2 ^ 32 \<and>
   fst (seededRandom_call s) = of_nat (unat (lcg_next s) mod 2 ^ 28) / (2 ^ 28 - 1) \<and>
   0 \<le> fst (seededRandom_call s) \<and> fst (seededRandom_call s) \<le> 1"
proof -
  let ?k = "unat (lcg_next s) mod 2 ^ 28"
  have v: "fst (seededRandom_call s) = of_nat ?k / (2 ^ 28 - 1)"
    by (simp add: seededRandom_call_def lcg_output_def low28 Let_def)
  have "?k < 2 ^ 28" by simp
  then have "?k \<le> 268435455" by simp
  then have "(of_nat ?k :: rat) \<le> 268435455" by (metis of_nat_le_iff of_nat_numeral)
  then have "(of_nat ?k :: rat) / (2 ^ 28 - 1) \<le> 1" by simp
  moreover have "0 \<le> (of_nat ?k :: rat) / (2 ^ 28 - 1)" by simp
  ultimately show ?thesis
    using v lcg_next_unat [of s] by (simp add: seededRandom_call_def Let_def)
qed

text \<open>
  The value 1 is returned: the generator seeded with 1995814688 moves to the state
  \<open>0x0fffffff\<close> on its first call, whose low 28 bits are all set.
\<close>

theorem seededRandom_reaches_one:
  "\<not> fst (seededRandom_call (seed_state 1995814688)) < 1"
  by (simp add: seededRandom_call_def seed_state_def lcg_next_def lcg_output_def)

subsection \<open>Rounding\<close>

lemma bitlen_nonpos: "n \<le> 0 \<Longrightarrow> bitlen n = 0"
  by (simp add: bitlen.simps)

lemma bitlen_bounds: "0 < n \<Longrightarrow> 2 ^ (bitlen n - 1) \<le> n \<and> n < 2 ^ bitlen n"
proof (induction n rule: bitlen.induct)
  case (1 n)
  show ?case
  proof (cases "n div 2 \<le> 0")
    case True
    with "1.prems" have "n = 1" by linarith
    then show ?thesis by (simp add: bitlen.simps)
  next
    case False
    then have pos: "0 < n div 2" by simp
    from "1.prems" have nz: "\<not> n \<le> 0" by simp
    from "1.IH" [OF nz pos]
    have ih: "2 ^ (bitlen (n div 2) - 1) \<le> n div 2" "n div 2 < 2 ^ bitlen (n div 2)" by simp_all
    have bl: "bitlen n = Suc (bitlen (n div 2))" using nz by (subst bitlen.simps) simp
    have bp: "bitlen (n div 2) > 0" using pos by (subst bitlen.simps) simp
    then obtain b where b: "bitlen (n div 2) = Suc b" by (cases "bitlen (n div 2)") auto
    from ih b have "2 * 2 ^ b \<le> 2 * (n div 2)" by simp
    also have "\<dots> \<le> n" by simp
    finally have lo: "2 ^ (bitlen n - 1) \<le> n" using bl b by simp
    from ih(2) have "n div 2 + 1 \<le> 2 ^ bitlen (n div 2)" by simp
    then have "2 * (n div 2) + 2 \<le> 2 * 2 ^ bitlen (n div 2)" by simp
    moreover have "n \<le> 2 * (n div 2) + 1" by linarith
    ultimately have hi: "n < 2 ^ bitlen n" using bl by simp
    from lo hi show ?thesis by simp
  qed
qed

lemma bitlen_pos: "0 < n \<Longrightarrow> 0 < bitlen n"
  by (subst bitlen.simps) simp

lemma bitlen_mono: "m \<le> n \<Longrightarrow> bitlen m \<le> bitlen n"
proof (cases "0 < m")
  case False
  then show ?thesis by (simp add: bitlen_nonpos)
next
  case True
  assume mn: "m \<le> n"
  with True have n: "0 < n" by simp
  show ?thesis
  proof (rule ccontr)
    assume "\<not> bitlen m \<le> bitlen n"
    then have lt: "bitlen n \<le> bitlen m - 1" by simp
    have "n < 2 ^ bitlen n" using bitlen_bounds [OF n] by simp
    also have "(2::int) ^ bitlen n \<le> 2 ^ (bitlen m - 1)" using lt by (simp add: power_increasing)
    also have "\<dots> \<le> m" using bitlen_bounds [OF True] by simp
    finally show False using mn by simp
  qed
qed

lemma rne_lower: "n div 2 ^ k \<le> rne n k"
  by (simp add: rne_def Let_def)

lemma rne_upper: "rne n k \<le> n div 2 ^ k + 1"
  by (simp add: rne_def Let_def)

lemma rne_mono: assumes "m \<le> n" shows "rne m k \<le> rne n k"
proof -
  let ?d = "(2::int) ^ k"
  have d: "0 < ?d" by simp
  have q: "m div ?d \<le> n div ?d" using assms by (simp add: zdiv_mono1)
  show ?thesis
  proof (cases "m div ?d = n div ?d")
    case False
    with q have "m div ?d + 1 \<le> n div ?d" by simp
    then show ?thesis using rne_upper [of m k] rne_lower [of n k] by linarith
  next
    case True
    have "m = ?d * (m div ?d) + m mod ?d" "n = ?d * (n div ?d) + n mod ?d" by simp_all
    with True assms have r: "m mod ?d \<le> n mod ?d"
      by (metis add_le_cancel_left)
    show ?thesis using True r by (auto simp add: rne_def Let_def)
  qed
qed

lemma round_sig_nonpos: "n \<le> 0 \<Longrightarrow> round_sig p n = n"
  by (simp add: round_sig_def bitlen_nonpos rne_def)

lemma div_pow_lower: assumes "(a::int) * 2 ^ k \<le> n" shows "a \<le> n div 2 ^ k"
proof -
  have "(a * 2 ^ k) div 2 ^ k \<le> n div 2 ^ k" by (rule zdiv_mono1 [OF assms]) simp
  then show ?thesis by simp
qed

lemma div_pow_upper: assumes "(n::int) < a * 2 ^ k" shows "n div 2 ^ k < a"
proof (rule ccontr)
  assume "\<not> n div 2 ^ k < a"
  then have "a * 2 ^ k \<le> (n div 2 ^ k) * 2 ^ k" by simp
  also have "\<dots> \<le> (n div 2 ^ k) * 2 ^ k + n mod 2 ^ k" by simp
  also have "\<dots> = n" by (rule div_mult_mod_eq)
  finally show False using assms by simp
qed

lemma round_sig_lower: assumes "0 < n" "0 < p" shows "2 ^ (bitlen n - 1) \<le> round_sig p n"
proof -
  let ?k = "bitlen n - p"
  have bp: "0 < bitlen n" using assms bitlen_pos by simp
  have kle: "?k \<le> bitlen n - 1" using assms bp by simp
  then obtain j where j: "bitlen n - 1 = j + ?k" by (metis le_add_diff_inverse2)
  have "(2::int) ^ j * 2 ^ ?k \<le> n"
    using bitlen_bounds [OF assms(1)] j by (simp add: power_add [symmetric])
  then have "(2::int) ^ j \<le> n div 2 ^ ?k" by (rule div_pow_lower)
  also have "\<dots> \<le> rne n ?k" by (rule rne_lower)
  finally have "(2::int) ^ j * 2 ^ ?k \<le> rne n ?k * 2 ^ ?k" by simp
  moreover have "(2::int) ^ j * 2 ^ ?k = 2 ^ (bitlen n - 1)" by (subst j) (simp add: power_add)
  ultimately show ?thesis by (simp add: round_sig_def Let_def)
qed

lemma round_sig_upper: assumes "0 < n" shows "round_sig p n \<le> 2 ^ bitlen n"
proof -
  let ?k = "bitlen n - p"
  have kle: "?k \<le> bitlen n" by simp
  then obtain j where j: "bitlen n = j + ?k" by (metis le_add_diff_inverse2)
  have "n < 2 ^ j * 2 ^ ?k"
    using bitlen_bounds [OF assms] j by (simp add: power_add [symmetric])
  then have "n div 2 ^ ?k < 2 ^ j" by (rule div_pow_upper)
  then have "rne n ?k \<le> 2 ^ j" using rne_upper [of n ?k] by linarith
  then have "rne n ?k * 2 ^ ?k \<le> 2 ^ j * 2 ^ ?k" by simp
  also have "(2::int) ^ j * 2 ^ ?k = 2 ^ bitlen n" by (subst j) (simp add: power_add)
  finally show ?thesis by (simp add: round_sig_def Let_def)
qed

lemma round_sig_mono: assumes "m \<le> n" "0 < p" shows "round_sig p m \<le> round_sig p n"
proof (cases "0 < m")
  case False
  then have m: "round_sig p m = m" by (simp add: round_sig_nonpos)
  show ?thesis
  proof (cases "0 < n")
    case True
    have "0 \<le> round_sig p n" using round_sig_lower [OF True assms(2)]
      by (meson order_trans zero_le_numeral zero_le_power)
    with False m show ?thesis by simp
  next
    case n: False
    then show ?thesis using m assms by (simp add: round_sig_nonpos)
  qed
next
  case True
  with assms have n: "0 < n" by simp
  have b: "bitlen m \<le> bitlen n" using assms by (simp add: bitlen_mono)
  show ?thesis
  proof (cases "bitlen m - p = bitlen n - p")
    case True
    then show ?thesis using rne_mono [OF assms(1)] by (simp add: round_sig_def Let_def)
  next
    case False
    with b have lt: "bitlen m \<le> bitlen n - 1" by linarith
    have "round_sig p m \<le> 2 ^ bitlen m" using round_sig_upper [OF True] .
    also have "(2::int) ^ bitlen m \<le> 2 ^ (bitlen n - 1)" using lt by (simp add: power_increasing)
    also have "\<dots> \<le> round_sig p n" using round_sig_lower [OF n assms(2)] .
    finally show ?thesis .
  qed
qed


subsection \<open>Raster scans\<close>

lemma row_fold:
  "fold (f y) [0..<w] s = fold (\<lambda>i. f (i div w) (i mod w)) [y * w..<y * w + w] s"
proof -
  have "[y * w..<y * w + w] = map (\<lambda>x. x + y * w) [0..<w]"
    by (simp add: map_add_upt add.commute)
  then have "fold (\<lambda>i. f (i div w) (i mod w)) [y * w..<y * w + w] s =
             fold ((\<lambda>i. f (i div w) (i mod w)) \<circ> (\<lambda>x. x + y * w)) [0..<w] s"
    by (simp add: fold_map)
  also have "\<dots> = fold (f y) [0..<w] s"
    by (rule fold_cong) auto
  finally show ?thesis by simp
qed

lemma upt_rows: "[0..<Suc h * w] = [0..<h * w] @ [h * w..<h * w + w]"
proof -
  have "[0..<h * w + w] = [0..<h * w] @ [h * w..<h * w + w]"
    by (rule upt_add_eq_append) simp
  then show ?thesis by (simp add: add.commute)
qed

lemma raster_fold:
  "fold (\<lambda>y. fold (f y) [0..<w]) [0..<h] s = fold (\<lambda>i. f (i div w) (i mod w)) [0..<h * w] s"
proof (induction h)
  case 0
  show ?case by simp
next
  case (Suc h)
  let ?F = "\<lambda>i. f (i div w) (i mod w)"
  have "fold (\<lambda>y. fold (f y) [0..<w]) [0..<Suc h] s =
        fold (f h) [0..<w] (fold (\<lambda>y. fold (f y) [0..<w]) [0..<h] s)" by simp
  also have "\<dots> = fold (f h) [0..<w] (fold ?F [0..<h * w] s)" by (simp only: Suc)
  also have "\<dots> = fold ?F [h * w..<h * w + w] (fold ?F [0..<h * w] s)" by (rule row_fold)
  also have "\<dots> = fold ?F ([0..<h * w] @ [h * w..<h * w + w]) s" by simp
  finally show ?case by (simp only: upt_rows)
qed

lemma row_fold_rev:
  "fold (f y) (rev [0..<w]) s = fold (\<lambda>i. f (i div w) (i mod w)) (rev [y * w..<y * w + w]) s"
proof -
  have "[y * w..<y * w + w] = map (\<lambda>x. x + y * w) [0..<w]"
    by (simp add: map_add_upt add.commute)
  then have "fold (\<lambda>i. f (i div w) (i mod w)) (rev [y * w..<y * w + w]) s =
             fold ((\<lambda>i. f (i div w) (i mod w)) \<circ> (\<lambda>x. x + y * w)) (rev [0..<w]) s"
    by (simp add: fold_map rev_map)
  also have "\<dots> = fold (f y) (rev [0..<w]) s"
    by (rule fold_cong) auto
  finally show ?thesis by simp
qed

lemma raster_fold_rev:
  "fold (\<lambda>y. fold (f y) (rev [0..<w])) (rev [0..<h]) s =
   fold (\<lambda>i. f (i div w) (i mod w)) (rev [0..<h * w]) s"
proof (induction h arbitrary: s)
  case 0
  show ?case by simp
next
  case (Suc h)
  let ?F = "\<lambda>i. f (i div w) (i mod w)"
  have "fold (\<lambda>y. fold (f y) (rev [0..<w])) (rev [0..<Suc h]) s =
        fold (\<lambda>y. fold (f y) (rev [0..<w])) (rev [0..<h]) (fold (f h) (rev [0..<w]) s)" by simp
  also have "\<dots> = fold ?F (rev [0..<h * w]) (fold (f h) (rev [0..<w]) s)" by (simp only: Suc)
  also have "\<dots> = fold ?F (rev [0..<h * w]) (fold ?F (rev [h * w..<h * w + w]) s)"
    by (simp only: row_fold_rev [of f h w])
  also have "\<dots> = fold ?F (rev ([0..<h * w] @ [h * w..<h * w + w])) s" by simp
  finally show ?case by (simp only: upt_rows)
qed

text \<open>A scan whose step \<open>i\<close> writes index \<open>i\<close> only.\<close>

lemma scan_frame:
  assumes len: "\<And>i s. length (g i s) = length s"
    and frame: "\<And>i j s. j \<noteq> i \<Longrightarrow> g i s ! j = s ! j"
  shows "length (fold g xs s) = length s \<and> (j \<notin> set xs \<longrightarrow> fold g xs s ! j = s ! j)"
  by (induction xs arbitrary: s) (auto simp add: len frame)

lemma scan_up_final:
  assumes len: "\<And>i s. length (g i s) = length s"
    and frame: "\<And>i j s. j \<noteq> i \<Longrightarrow> g i s ! j = s ! j"
    and i: "i < n"
  shows "fold g [0..<n] s ! i = g i (fold g [0..<i] s) ! i"
proof -
  have "[0..<n] = [0..<i] @ i # [Suc i..<n]"
    using i by (metis le_add_diff_inverse less_imp_le_nat upt_add_eq_append upt_conv_Cons zero_le)
  then have "fold g [0..<n] s = fold g [Suc i..<n] (g i (fold g [0..<i] s))" by simp
  moreover have "i \<notin> set [Suc i..<n]" by simp
  ultimately show ?thesis using scan_frame [OF len frame, where xs = "[Suc i..<n]" and j = i] by simp
qed

lemma scan_down_final:
  assumes len: "\<And>i s. length (g i s) = length s"
    and frame: "\<And>i j s. j \<noteq> i \<Longrightarrow> g i s ! j = s ! j"
    and i: "i < n"
  shows "fold g (rev [0..<n]) s ! i = g i (fold g (rev [Suc i..<n]) s) ! i \<and>
         (\<forall>m>i. fold g (rev [Suc i..<n]) s ! m = fold g (rev [0..<n]) s ! m)"
proof -
  let ?S = "fold g (rev [Suc i..<n]) s"
  have "[0..<n] = [0..<i] @ i # [Suc i..<n]"
    using i by (metis le_add_diff_inverse less_imp_le_nat upt_add_eq_append upt_conv_Cons zero_le)
  then have D: "fold g (rev [0..<n]) s = fold g (rev [0..<i]) (g i ?S)" by simp
  have a: "fold g (rev [0..<i]) (g i ?S) ! m = g i ?S ! m" if "i \<le> m" for m
    using scan_frame [OF len frame, where xs = "rev [0..<i]" and s = "g i ?S" and j = m] that by simp
  have "fold g (rev [0..<n]) s ! i = g i ?S ! i" using D a [of i] by simp
  moreover have "?S ! m = fold g (rev [0..<n]) s ! m" if "i < m" for m
    using D a [of m] that frame [of m i ?S] by simp
  ultimately show ?thesis by simp
qed

subsection \<open>Dashed edges\<close>

lemma dashPixel_length: "length (dashPixel sl e w y x s) = length s"
  by (simp add: dashPixel_def Let_def)

lemma dashEdges_flat:
  "dashEdges t e w h =
     fold (\<lambda>i. dashPixel (stitchLen t) e w (i div w) (i mod w)) [0..<h * w]
       (replicate (length e) 0)"
  by (simp add: dashEdges_def raster_fold)

lemma dashEdges_length: "length (dashEdges t e w h) = length e"
proof -
  have "length (fold (\<lambda>i. dashPixel (stitchLen t) e w (i div w) (i mod w)) xs s) = length s"
    for xs s
    by (induction xs arbitrary: s) (simp_all add: dashPixel_length)
  then show ?thesis by (simp add: dashEdges_flat)
qed

lemma dashPixel_at:
  "i = y * w + x \<Longrightarrow> i < length s \<Longrightarrow>
   dashPixel sl e w y x s ! i =
     (if rd e i 0 = 0 then s ! i else if (x div sl) mod 2 = 0 then 255 else 0)"
  by (simp add: dashPixel_def Let_def)

text \<open>
  C4, as the code has it. The dash length is \<open>max(2, T)\<close>: the dashed output keeps the pixel
  of column \<open>x\<close> (value 255) exactly when the edge pixel it covers is set and
  \<open>\<lfloor>x / max(2, T)\<rfloor>\<close> is even, and holds 0 otherwise. For a thickness from 2 to 10 this is
  \<open>\<lfloor>x / T\<rfloor>\<close>.
\<close>

theorem dashEdges_pixel:
  assumes "x < w" "y < h" "y * w + x < length edgeMap"
  shows "dashEdges t edgeMap w h ! (y * w + x) =
           (if edgeMap ! (y * w + x) \<noteq> 0 \<and> (x div max 2 t) mod 2 = 0 then 255 else 0)"
proof -
  let ?g = "\<lambda>i. dashPixel (stitchLen t) edgeMap w (i div w) (i mod w)"
  let ?i = "y * w + x"
  let ?init = "replicate (length edgeMap) (0::nat)"
  have len: "\<And>i s. length (?g i s) = length s" by (simp add: dashPixel_length)
  have frame: "\<And>i j s. j \<noteq> i \<Longrightarrow> ?g i s ! j = s ! j"
  proof -
    fix i j :: nat and s :: "nat list"
    assume "j \<noteq> i"
    moreover have "i div w * w + i mod w = i" by simp
    ultimately show "?g i s ! j = s ! j" by (simp add: dashPixel_def Let_def)
  qed
  have lt: "?i < h * w"
  proof -
    have "y * w + x < y * w + w" using assms(1) by simp
    also have "\<dots> = Suc y * w" by simp
    also have "\<dots> \<le> h * w" using assms(2) by (simp only: mult_le_mono1 Suc_leI)
    finally show ?thesis .
  qed
  let ?S = "fold ?g [0..<?i] ?init"
  have S: "length ?S = length edgeMap \<and> ?S ! ?i = 0"
    using scan_frame [OF len frame, where xs = "[0..<?i]" and s = ?init and j = ?i] assms(3) by simp
  have xy: "?i div w = y" "?i mod w = x" using assms(1) by simp_all
  have "dashEdges t edgeMap w h ! ?i = ?g ?i ?S ! ?i"
    unfolding dashEdges_flat by (rule scan_up_final [OF len frame lt])
  also have "\<dots> = dashPixel (stitchLen t) edgeMap w y x ?S ! ?i" by (simp only: xy)
  also have "\<dots> = (if rd edgeMap ?i 0 = 0 then ?S ! ?i
                     else if (x div stitchLen t) mod 2 = 0 then 255 else 0)"
    using S assms(3) by (intro dashPixel_at) simp_all
  also have "\<dots> = (if edgeMap ! ?i \<noteq> 0 \<and> (x div max 2 t) mod 2 = 0 then 255 else 0)"
    using S assms(3) by (simp add: rd_def stitchLen_def)
  finally show ?thesis .
qed

theorem dashEdges_pixel_witness:
  "(4::nat) < 6 \<and> (0::nat) < 1 \<and> 0 * 6 + 4 < length [255, 0, 255, 255, 255, 255 :: nat] \<and>
   dashEdges 3 [255, 0, 255, 255, 255, 255] 6 1 ! (0 * 6 + 4) =
     (if [255, 0, 255, 255, 255, 255 :: nat] ! (0 * 6 + 4) \<noteq> 0 \<and> (4 div max 2 3) mod 2 = (0::nat)
      then 255 else 0)"
  using dashEdges_pixel [of 4 6 0 1 "[255, 0, 255, 255, 255, 255]" 3] by simp

text \<open>
  With thickness 1 the pixel of column 1 is kept although \<open>\<lfloor>1 / 1\<rfloor>\<close> is odd.
\<close>

theorem dashEdges_thickness_one:
  "dashEdges 1 [255, 255] 2 1 ! 1 = 255 \<and> (1 div 1) mod 2 \<noteq> (0::nat)"
  by code_simp


subsection \<open>Distance transform\<close>

lemma fl_one_pos: "0 < fl_one" by (simp add: fl_one_def)
lemma fl_1_4_ge: "fl_one \<le> fl_1_4" by (simp add: fl_one_def fl_1_4_def)
lemma fl_inf_ge: "fl_one \<le> fl_inf" by (simp add: fl_one_def fl_inf_def)

lemma bitlen_fl_one: "bitlen fl_one = 53"
  unfolding fl_one_def by code_simp

lemma round_sig_ge_one: assumes "fl_one \<le> n" "0 < p" shows "fl_one \<le> round_sig p n"
proof -
  have n: "0 < n" using assms(1) fl_one_pos by simp
  have "53 \<le> bitlen n" using bitlen_mono [OF assms(1)] by (simp add: bitlen_fl_one)
  then have "(2::int) ^ 52 \<le> 2 ^ (bitlen n - 1)" by (intro power_increasing) simp_all
  also have "\<dots> \<le> round_sig p n" by (rule round_sig_lower [OF n assms(2)])
  finally show ?thesis by (simp add: fl_one_def)
qed

lemma to_float32_0: "to_float32 0 = 0" by (simp add: to_float32_def round_sig_nonpos)

lemma to_float32_mono: "m \<le> n \<Longrightarrow> to_float32 m \<le> to_float32 n"
  by (simp add: to_float32_def round_sig_mono)

lemma to_float32_ge_one: "fl_one \<le> n \<Longrightarrow> fl_one \<le> to_float32 n"
  by (simp add: to_float32_def round_sig_ge_one)

lemma to_double_ge_one: "fl_one \<le> n \<Longrightarrow> fl_one \<le> to_double n"
  by (simp add: to_double_def round_sig_ge_one)

lemma rd_nonneg: "\<forall>v\<in>set dst. (0::int) \<le> v \<Longrightarrow> 0 \<le> d \<Longrightarrow> 0 \<le> rd dst j d"
  by (simp add: rd_def)

lemma candidate_ge_one:
  assumes "\<forall>v\<in>set dst. 0 \<le> v" "fl_one \<le> c"
  shows "fl_one \<le> to_double (rd dst j fl_inf + c)"
proof -
  have "0 \<le> rd dst j fl_inf" using assms(1) fl_inf_ge fl_one_pos by (intro rd_nonneg) simp_all
  then show ?thesis using assms(2) by (intro to_double_ge_one) simp
qed

lemma relax_zero:
  assumes "\<forall>v\<in>set dst. 0 \<le> v" "fl_one \<le> c"
  shows "relax dst j c 0 = 0"
  using candidate_ge_one [OF assms, of j] fl_one_pos by (simp add: relax_def)

lemma relax_ge_one:
  assumes "\<forall>v\<in>set dst. 0 \<le> v" "fl_one \<le> c" "fl_one \<le> b"
  shows "fl_one \<le> relax dst j c b"
  using candidate_ge_one [OF assms(1,2), of j] assms(3) by (simp add: relax_def)

lemma opt_relax_zero:
  assumes "\<forall>v\<in>set dst. 0 \<le> v" "fl_one \<le> c" "b = 0"
  shows "(if cnd then relax dst j c b else b) = 0"
  using relax_zero [OF assms(1,2)] assms(3) by simp

lemma opt_relax_ge_one:
  assumes "\<forall>v\<in>set dst. 0 \<le> v" "fl_one \<le> c" "fl_one \<le> b"
  shows "fl_one \<le> (if cnd then relax dst j c b else b)"
  using relax_ge_one [OF assms] assms(3) by simp

lemma fwdPixel_shape:
  assumes nn: "\<forall>v\<in>set dst. 0 \<le> v"
  shows "\<exists>v. fwdPixel w h y x dst = dst[y * w + x := v] \<and>
             (rd dst (y * w + x) fl_inf = 0 \<longrightarrow> v = 0) \<and>
             (fl_one \<le> rd dst (y * w + x) fl_inf \<longrightarrow> fl_one \<le> v)"
proof -
  let ?i = "y * w + x"
  let ?b0 = "rd dst ?i fl_inf"
  let ?b1 = "if x > 0 then relax dst (?i - 1) fl_one ?b0 else ?b0"
  let ?b2 = "if y > 0 then relax dst (?i - w) fl_one ?b1 else ?b1"
  let ?b3 = "if x > 0 \<and> y > 0 then relax dst (?i - w - 1) fl_1_4 ?b2 else ?b2"
  let ?b4 = "if x + 1 < w \<and> y > 0 then relax dst (?i - w + 1) fl_1_4 ?b3 else ?b3"
  have eq: "fwdPixel w h y x dst = dst[?i := to_float32 ?b4]"
    unfolding fwdPixel_def Let_def by (rule refl)
  have z: "to_float32 ?b4 = 0" if "?b0 = 0"
  proof -
    have "?b1 = 0" by (rule opt_relax_zero [OF nn order_refl that])
    then have "?b2 = 0" by (rule opt_relax_zero [OF nn order_refl])
    then have "?b3 = 0" by (rule opt_relax_zero [OF nn fl_1_4_ge])
    then have "?b4 = 0" by (rule opt_relax_zero [OF nn fl_1_4_ge])
    then show ?thesis by (simp only: to_float32_0)
  qed
  have g: "fl_one \<le> to_float32 ?b4" if "fl_one \<le> ?b0"
  proof -
    have "fl_one \<le> ?b1" by (rule opt_relax_ge_one [OF nn order_refl that])
    then have "fl_one \<le> ?b2" by (rule opt_relax_ge_one [OF nn order_refl])
    then have "fl_one \<le> ?b3" by (rule opt_relax_ge_one [OF nn fl_1_4_ge])
    then have "fl_one \<le> ?b4" by (rule opt_relax_ge_one [OF nn fl_1_4_ge])
    then show ?thesis by (rule to_float32_ge_one)
  qed
  from eq z g show ?thesis by blast
qed

lemma bwdPixel_shape:
  assumes nn: "\<forall>v\<in>set dst. 0 \<le> v"
  shows "\<exists>v. bwdPixel w h y x dst = dst[y * w + x := v] \<and>
             (rd dst (y * w + x) 0 = 0 \<longrightarrow> v = 0) \<and>
             (fl_one \<le> rd dst (y * w + x) 0 \<longrightarrow> fl_one \<le> v)"
proof -
  let ?i = "y * w + x"
  let ?b0 = "rd dst ?i 0"
  let ?b1 = "if x + 1 < w then relax dst (?i + 1) fl_one ?b0 else ?b0"
  let ?b2 = "if y + 1 < h then relax dst (?i + w) fl_one ?b1 else ?b1"
  let ?b3 = "if x + 1 < w \<and> y + 1 < h then relax dst (?i + w + 1) fl_1_4 ?b2 else ?b2"
  let ?b4 = "if x > 0 \<and> y + 1 < h then relax dst (?i + w - 1) fl_1_4 ?b3 else ?b3"
  have eq: "bwdPixel w h y x dst = dst[?i := to_float32 ?b4]"
    unfolding bwdPixel_def Let_def by (rule refl)
  have z: "to_float32 ?b4 = 0" if "?b0 = 0"
  proof -
    have "?b1 = 0" by (rule opt_relax_zero [OF nn order_refl that])
    then have "?b2 = 0" by (rule opt_relax_zero [OF nn order_refl])
    then have "?b3 = 0" by (rule opt_relax_zero [OF nn fl_1_4_ge])
    then have "?b4 = 0" by (rule opt_relax_zero [OF nn fl_1_4_ge])
    then show ?thesis by (simp only: to_float32_0)
  qed
  have g: "fl_one \<le> to_float32 ?b4" if "fl_one \<le> ?b0"
  proof -
    have "fl_one \<le> ?b1" by (rule opt_relax_ge_one [OF nn order_refl that])
    then have "fl_one \<le> ?b2" by (rule opt_relax_ge_one [OF nn order_refl])
    then have "fl_one \<le> ?b3" by (rule opt_relax_ge_one [OF nn fl_1_4_ge])
    then have "fl_one \<le> ?b4" by (rule opt_relax_ge_one [OF nn fl_1_4_ge])
    then show ?thesis by (rule to_float32_ge_one)
  qed
  from eq z g show ?thesis by blast
qed

text \<open>The invariant of both passes: set pixels hold 0, the others at least 1.\<close>

lemma dt_inv_pixel:
  assumes inv: "length dst = n \<and> (\<forall>i<n. if rd src i 0 > 0 then dst ! i = 0 else fl_one \<le> dst ! i)"
    and step: "dst' = fwdPixel w h y x dst \<or> dst' = bwdPixel w h y x dst"
  shows "length dst' = n \<and> (\<forall>i<n. if rd src i 0 > 0 then dst' ! i = 0 else fl_one \<le> dst' ! i)"
proof -
  have nn: "\<forall>v\<in>set dst. 0 \<le> v"
  proof
    fix v assume "v \<in> set dst"
    then obtain i where "i < n" "dst ! i = v" using inv by (auto simp add: in_set_conv_nth)
    then show "0 \<le> v" using inv fl_one_pos by (auto split: if_splits)
  qed
  let ?i = "y * w + x"
  obtain v where v: "dst' = dst[?i := v]"
      "rd dst ?i fl_inf = 0 \<and> rd dst ?i 0 = 0 \<longrightarrow> v = 0"
      "fl_one \<le> rd dst ?i fl_inf \<and> fl_one \<le> rd dst ?i 0 \<longrightarrow> fl_one \<le> v"
    using step fwdPixel_shape [OF nn, of w h y x] bwdPixel_shape [OF nn, of w h y x] by blast
  show ?thesis
  proof (intro conjI allI impI)
    show "length dst' = n" using v(1) inv by simp
  next
    fix i assume i: "i < n"
    show "if rd src i 0 > 0 then dst' ! i = 0 else fl_one \<le> dst' ! i"
    proof (cases "i = ?i")
      case False
      then show ?thesis using v(1) inv i by simp
    next
      case True
      then have "rd dst ?i fl_inf = dst ! i" "rd dst ?i 0 = dst ! i" "dst' ! i = v"
        using i inv v(1) by (simp_all add: rd_def)
      then show ?thesis using v(2,3) inv i by (auto split: if_splits)
    qed
  qed
qed

lemma fold_invariant:
  assumes "\<And>x s. P s \<Longrightarrow> P (f x s)" "P s"
  shows "P (fold f xs s)"
  using assms(2) by (induction xs arbitrary: s) (simp_all add: assms(1))

lemma initDist_inv:
  "length (initDist src w h) = w * h \<and>
   (\<forall>i<w * h. if rd src i 0 > 0 then initDist src w h ! i = 0 else fl_one \<le> initDist src w h ! i)"
  by (simp add: initDist_def to_float32_0 to_float32_ge_one fl_inf_ge)

lemma distanceTransform_inv:
  "length (distanceTransform src w h) = w * h \<and>
   (\<forall>i<w * h. if rd src i 0 > 0 then distanceTransform src w h ! i = 0
               else fl_one \<le> distanceTransform src w h ! i)"
proof -
  let ?P = "\<lambda>dst. length dst = w * h \<and>
              (\<forall>i<w * h. if rd src i 0 > 0 then dst ! i = 0 else fl_one \<le> dst ! i)"
  have step_f: "?P (fwdPixel w h y x s)" if "?P s" for x y s
    using dt_inv_pixel [OF that, of "fwdPixel w h y x s" w h y x] by simp
  have step_b: "?P (bwdPixel w h y x s)" if "?P s" for x y s
    using dt_inv_pixel [OF that, of "bwdPixel w h y x s" w h y x] by simp
  have row_f: "?P (fold (fwdPixel w h y) [0..<w] s)" if "?P s" for y s
    using step_f that by (rule fold_invariant [where P = ?P])
  have row_b: "?P (fold (bwdPixel w h y) (rev [0..<w]) s)" if "?P s" for y s
    using step_b that by (rule fold_invariant [where P = ?P])
  have f: "?P (fwdPass w h (initDist src w h))"
    unfolding fwdPass_def using row_f initDist_inv by (rule fold_invariant [where P = ?P])
  show ?thesis
    unfolding distanceTransform_def bwdPass_def
    using row_b f by (rule fold_invariant [where P = ?P])
qed


subsection \<open>What the backward pass leaves behind\<close>

lemma bwdPixel_length: "length (bwdPixel w h y x s) = length s"
  by (simp add: bwdPixel_def Let_def)

lemma bwdPixel_frame: "j \<noteq> y * w + x \<Longrightarrow> bwdPixel w h y x s ! j = s ! j"
  by (simp add: bwdPixel_def Let_def)

lemma opt_relax_le: "(if cnd then relax dst j c b else b) \<le> b"
  by (simp add: relax_def)

lemma opt_relax_le_candidate:
  "cnd \<Longrightarrow> (if cnd then relax dst j c b else b) \<le> to_double (rd dst j fl_inf + c)"
  by (simp add: relax_def)

lemma bwdPass_flat:
  "bwdPass w h s = fold (\<lambda>i. bwdPixel w h (i div w) (i mod w)) (rev [0..<h * w]) s"
  by (simp add: bwdPass_def raster_fold_rev)

lemma pixel_index: "x < w \<Longrightarrow> y < h \<Longrightarrow> y * w + x < h * (w::nat)"
proof -
  assume "x < w" "y < h"
  then have "y * w + x < y * w + w" by simp
  also have "\<dots> = Suc y * w" by simp
  also have "\<dots> \<le> h * w" using \<open>y < h\<close> by (simp only: mult_le_mono1 Suc_leI)
  finally show ?thesis .
qed

subsection \<open>Steps in single precision\<close>

lemma bitlen_eq: assumes "2 ^ j \<le> n" "n < 2 ^ Suc j" shows "bitlen n = Suc j"
proof -
  have "(0::int) < 2 ^ j" by simp
  then have pos: "0 < n" using assms(1) by linarith
  have b: "2 ^ (bitlen n - 1) \<le> n" "n < 2 ^ bitlen n" using bitlen_bounds [OF pos] by simp_all
  have "(2::int) ^ j < 2 ^ bitlen n" using assms(1) b(2) by linarith
  then have 1: "j < bitlen n" by (simp add: power_strict_increasing_iff)
  have "(2::int) ^ (bitlen n - 1) < 2 ^ Suc j" using assms(2) b(1) by linarith
  then have 2: "bitlen n - 1 < Suc j" by (simp only: power_strict_increasing_iff) 
  from 1 2 show ?thesis by linarith
qed

lemma round_sig_exact: assumes "2 ^ (bitlen n - p) dvd n" shows "round_sig p n = n"
proof -
  let ?d = "(2::int) ^ (bitlen n - p)"
  have "n mod ?d = 0" using assms by (simp add: dvd_eq_mod_eq_0)
  moreover have "n div ?d * ?d = n" using assms by simp
  ultimately show ?thesis by (simp add: round_sig_def rne_def Let_def)
qed

lemma round_sig_dvd: "2 ^ (bitlen n - p) dvd round_sig p n"
  by (simp add: round_sig_def Let_def)

lemma round_sig_idem: assumes "0 < p" shows "round_sig p (round_sig p n) = round_sig p n"
proof (cases "0 < n")
  case False
  then show ?thesis by (simp add: round_sig_nonpos)
next
  case True
  let ?r = "round_sig p n"
  have bp: "0 < bitlen n" using True by (rule bitlen_pos)
  then obtain j where j: "bitlen n = Suc j" by (cases "bitlen n") auto
  have lo: "2 ^ j \<le> ?r" using round_sig_lower [OF True assms] j by simp
  have hi: "?r \<le> 2 ^ Suc j" using round_sig_upper [OF True, of p] j by simp
  show ?thesis
  proof (cases "?r < 2 ^ Suc j")
    case True
    then have "bitlen ?r = bitlen n" using bitlen_eq [OF lo] j by simp
    then have "2 ^ (bitlen ?r - p) dvd ?r" using round_sig_dvd [of n p] by simp
    then show ?thesis by (rule round_sig_exact)
  next
    case False
    with hi have r: "?r = 2 ^ Suc j" by simp
    have "(2::int) ^ Suc (Suc j) = 2 * 2 ^ Suc j" by simp
    then have "bitlen ?r = Suc (Suc j)"
      using bitlen_eq [of "Suc j" ?r] r by simp
    moreover have "Suc (Suc j) - p \<le> Suc j" using assms by simp
    ultimately have "2 ^ (bitlen ?r - p) dvd ?r"
      using r by (simp only: le_imp_power_dvd)
    then show ?thesis by (rule round_sig_exact)
  qed
qed

lemma round_sig_err: "2 * \<bar>round_sig p n - n\<bar> \<le> 2 ^ (bitlen n - p)"
proof -
  let ?d = "(2::int) ^ (bitlen n - p)"
  let ?q = "n div ?d" and ?r = "n mod ?d"
  have d: "0 < ?d" by simp
  have n: "n = ?q * ?d + ?r" by (rule div_mult_mod_eq [symmetric])
  have r: "0 \<le> ?r" "?r < ?d" using d by simp_all
  show ?thesis
  proof (cases "2 * ?r < ?d \<or> (2 * ?r = ?d \<and> even ?q)")
    case True
    then have "round_sig p n = ?q * ?d" by (simp add: round_sig_def rne_def Let_def)
    then have eq: "round_sig p n - n = - ?r" using n by linarith
    have le: "2 * ?r \<le> ?d" using True by auto
    have "\<bar>- ?r\<bar> = ?r" using r(1) by linarith
    then show ?thesis unfolding eq using le by linarith
  next
    case False
    then have "round_sig p n = (?q + 1) * ?d" by (simp add: round_sig_def rne_def Let_def)
    then have eq: "round_sig p n - n = ?d - ?r" using n by (simp add: algebra_simps)
    have ge: "?d \<le> 2 * ?r" using False by auto
    have "\<bar>?d - ?r\<bar> = ?d - ?r" using r(2) by linarith
    then show ?thesis unfolding eq using ge by linarith
  qed
qed

lemma round_sig_shift:
  assumes "bitlen (n + e) = bitlen n" "2 * 2 ^ (bitlen n - p) dvd e"
  shows "round_sig p (n + e) = round_sig p n + e"
proof -
  let ?k = "bitlen n - p"
  let ?d = "(2::int) ^ ?k"
  from assms(2) obtain j where e: "e = 2 * ?d * j" by (auto simp add: dvd_def)
  have e': "n + e = n + (2 * j) * ?d" using e by simp
  have q: "(n + e) div ?d = n div ?d + 2 * j" unfolding e' by simp
  have m: "(n + e) mod ?d = n mod ?d" unfolding e' by simp
  have "rne (n + e) ?k = rne n ?k + 2 * j"
    unfolding rne_def Let_def q m by simp
  then have "round_sig p (n + e) = (rne n ?k + 2 * j) * ?d"
    using assms(1) by (simp add: round_sig_def Let_def)
  also have "\<dots> = round_sig p n + e" using e by (simp add: round_sig_def Let_def algebra_simps)
  finally show ?thesis .
qed

lemma to_double_mono: "m \<le> n \<Longrightarrow> to_double m \<le> to_double n"
  by (simp add: to_double_def round_sig_mono)

lemma step32_mono: "v \<le> v' \<Longrightarrow> c \<le> c' \<Longrightarrow> step32 c v \<le> step32 c' v'"
  unfolding step32_def by (intro to_float32_mono to_double_mono) simp

lemma step32_single: "is_single (step32 c v)"
  by (simp add: is_single_def step32_def to_float32_def round_sig_idem)

lemma to_float32_single: "is_single (to_float32 v)"
  by (simp add: is_single_def to_float32_def round_sig_idem)

lemma single_dvd: assumes "is_single v" shows "2 ^ (bitlen v - 24) dvd v"
  using assms round_sig_dvd [of v 24] by (simp add: is_single_def to_float32_def)

lemma single_double: assumes "is_single v" shows "to_double v = v"
proof -
  have "(2::int) ^ (bitlen v - 53) dvd 2 ^ (bitlen v - 24)" by (rule le_imp_power_dvd) simp
  then have "2 ^ (bitlen v - 53) dvd v" using single_dvd [OF assms] by (rule dvd_trans)
  then show ?thesis unfolding to_double_def by (rule round_sig_exact)
qed

lemma step32_ge: assumes "is_single v" "0 \<le> c" shows "v \<le> step32 c v"
proof -
  have "step32 0 v = v" using assms(1) by (simp add: step32_def single_double) (simp add: is_single_def)
  moreover have "step32 0 v \<le> step32 c v" using assms(2) by (intro step32_mono) simp_all
  ultimately show ?thesis by simp
qed

lemma step32_err:
  assumes "0 < v + c"
  shows "\<bar>step32 c v - (v + c)\<bar> \<le> 2 ^ (bitlen (v + c) - 24)"
proof -
  let ?n = "v + c"
  let ?y = "to_double ?n"
  have bp: "0 < bitlen ?n" using assms by (rule bitlen_pos)
  then obtain j where j: "bitlen ?n = Suc j" by (cases "bitlen ?n") auto
  have e1: "2 * \<bar>?y - ?n\<bar> \<le> 2 ^ (bitlen ?n - 53)" unfolding to_double_def by (rule round_sig_err)
  have p1: "(2::int) ^ (bitlen ?n - 53) \<le> 2 ^ (bitlen ?n - 24)" by (rule power_increasing) simp_all
  have lo: "2 ^ j \<le> ?y" using round_sig_lower [OF assms, of 53] j by (simp add: to_double_def)
  have hi: "?y \<le> 2 ^ Suc j" using round_sig_upper [OF assms, of 53] j by (simp add: to_double_def)
  have e2: "2 * \<bar>to_float32 ?y - ?y\<bar> \<le> 2 ^ (bitlen ?n - 24)"
  proof (cases "?y < 2 ^ Suc j")
    case True
    then have "bitlen ?y = bitlen ?n" using bitlen_eq [OF lo] j by simp
    then show ?thesis using round_sig_err [of 24 ?y] by (simp add: to_float32_def)
  next
    case False
    with hi have y: "?y = 2 ^ Suc j" by simp
    have "(2::int) ^ Suc (Suc j) = 2 * 2 ^ Suc j" by simp
    then have "bitlen ?y = Suc (Suc j)" using bitlen_eq [of "Suc j" ?y] y by simp
    moreover have "Suc (Suc j) - 24 \<le> Suc j" by simp
    ultimately have "2 ^ (bitlen ?y - 24) dvd ?y" using y by (simp only: le_imp_power_dvd)
    then have "to_float32 ?y = ?y" unfolding to_float32_def by (rule round_sig_exact)
    then show ?thesis by simp
  qed
  have "step32 c v - ?n = (to_float32 ?y - ?y) + (?y - ?n)" by (simp add: step32_def)
  then have "\<bar>step32 c v - ?n\<bar> \<le> \<bar>to_float32 ?y - ?y\<bar> + \<bar>?y - ?n\<bar>"
    using abs_triangle_ineq [of "to_float32 ?y - ?y" "?y - ?n"] by simp
  with e1 e2 p1 show ?thesis by linarith
qed

lemma int_div_lt: assumes "0 < (d::int)" "a < k * d" shows "a div d < k"
proof (rule ccontr)
  assume "\<not> a div d < k"
  then have "k * d \<le> (a div d) * d" using assms(1) by (simp add: mult_right_mono)
  also have "\<dots> \<le> (a div d) * d + a mod d"
    using pos_mod_sign [OF assms(1), of a] by linarith
  also have "\<dots> = a" by (rule div_mult_mod_eq)
  finally show False using assms(2) by simp
qed

lemma binade_mono: "v \<le> v' \<Longrightarrow> binade v \<le> binade v'"
  unfolding binade_def using bitlen_mono [of v v'] by simp

lemma binade_ge: "53 \<le> binade v" by (simp add: binade_def)

lemma binade_upper: "v < 2 ^ binade v"
proof (cases "0 < v")
  case True
  then have "v < 2 ^ bitlen v" using bitlen_bounds by simp
  also have "(2::int) ^ bitlen v \<le> 2 ^ binade v" by (rule power_increasing) (simp_all add: binade_def)
  finally show ?thesis .
next
  case False
  then have "v \<le> 0" by simp
  also have "(0::int) < 2 ^ binade v" by simp
  finally show ?thesis .
qed

lemma binade_bitlen: "fl_one \<le> v \<Longrightarrow> binade v = bitlen v"
  using bitlen_mono [of fl_one v] by (simp add: binade_def bitlen_fl_one)

lemma binade_lower: assumes "fl_one \<le> v" shows "2 ^ (binade v - 1) \<le> v"
proof -
  have "0 < v" using assms fl_one_pos by linarith
  then show ?thesis using bitlen_bounds [of v] binade_bitlen [OF assms] by simp
qed

lemma binade_zero: "binade 0 = 53" by (simp add: binade_def bitlen_nonpos)

lemma binade_less: assumes "v < 2 ^ j" "53 \<le> j" shows "binade v \<le> j"
proof (cases "0 < v")
  case False
  then show ?thesis using assms(2) by (simp add: binade_def bitlen_nonpos)
next
  case True
  have "(2::int) ^ (bitlen v - 1) < 2 ^ j" using bitlen_bounds [OF True] assms(1) by linarith
  then have "bitlen v - 1 < j" by (simp only: power_strict_increasing_iff)
  then show ?thesis using assms(2) by (simp add: binade_def)
qed

lemma binade_greater: assumes "2 ^ j \<le> v" shows "j < binade v"
proof -
  have "(2::int) ^ j < 2 ^ binade v" using assms binade_upper [of v] by linarith
  then show ?thesis by (simp only: power_strict_increasing_iff)
qed

lemma ulp32_pos: "0 < ulp32 v" by (simp add: ulp32_def)

lemma ulp32_mono: "v \<le> v' \<Longrightarrow> ulp32 v \<le> ulp32 v'"
  unfolding ulp32_def using binade_mono [of v v'] by (intro power_increasing) simp_all

lemma ulp32_double: assumes "binade v < binade v'" shows "2 * ulp32 v \<le> ulp32 v'"
proof -
  have "Suc (binade v - 24) \<le> binade v' - 24" using assms binade_ge [of v] by linarith
  then have "(2::int) ^ Suc (binade v - 24) \<le> 2 ^ (binade v' - 24)" by (intro power_increasing) simp_all
  then show ?thesis by (simp add: ulp32_def)
qed

lemma ulp32_next: assumes "binade v' \<le> binade v + j" shows "ulp32 v' \<le> 2 ^ j * ulp32 v"
proof -
  have "binade v' - 24 \<le> j + (binade v - 24)" using assms binade_ge [of v] by linarith
  then have "(2::int) ^ (binade v' - 24) \<le> 2 ^ (j + (binade v - 24))" by (intro power_increasing) simp_all
  then show ?thesis by (simp add: ulp32_def power_add)
qed

lemma ulp32_small: assumes "v < 2 ^ (52 + j)" "0 < j" "j \<le> 23"
  shows "2 ^ (24 - j) * ulp32 v \<le> fl_one"
proof -
  have "binade v \<le> 52 + j" using assms(1,2) by (intro binade_less) simp_all
  then have "(24 - j) + (binade v - 24) \<le> 52" using assms(3) binade_ge [of v] by linarith
  then have "(2::int) ^ ((24 - j) + (binade v - 24)) \<le> 2 ^ 52" by (intro power_increasing) simp_all
  then show ?thesis by (simp add: ulp32_def fl_one_def power_add)
qed

lemma ulp32_dvd_one: assumes "v < 2 ^ 75" shows "2 * ulp32 v dvd fl_one"
proof -
  have "binade v \<le> 75" using assms by (intro binade_less) simp_all
  then have "Suc (binade v - 24) \<le> 52" by linarith
  then have "(2::int) ^ Suc (binade v - 24) dvd 2 ^ 52" by (rule le_imp_power_dvd)
  then show ?thesis by (simp add: ulp32_def fl_one_def)
qed

lemma ulp32_value: assumes "fl_one \<le> v" shows "2 ^ 23 * ulp32 v \<le> v"
proof -
  have "23 + (binade v - 24) = binade v - 1" using binade_ge [of v] by linarith
  then have "(2::int) ^ 23 * 2 ^ (binade v - 24) = 2 ^ (binade v - 1)"
    by (simp only: power_add [symmetric])
  then show ?thesis using binade_lower [OF assms] by (simp only: ulp32_def)
qed

lemma nearEnd_nonneg: "0 \<le> nearEnd v" by (simp add: nearEnd_def)

lemma nearEnd_le: "nearEnd v \<le> 4"
proof -
  have "v + 4 * fl_one - 2 ^ binade v < 4 * fl_one" using binade_upper [of v] by linarith
  then have "(v + 4 * fl_one - 2 ^ binade v) div fl_one < 4"
    by (intro int_div_lt fl_one_pos)
  then show ?thesis by (simp add: nearEnd_def)
qed

lemma nearEnd_outside: assumes "v + 4 * fl_one < 2 ^ binade v" shows "nearEnd v = 0"
proof -
  have "v + 4 * fl_one - 2 ^ binade v < 0" using assms by linarith
  then have "(v + 4 * fl_one - 2 ^ binade v) div fl_one < 0"
    using fl_one_pos by (simp add: div_neg_pos_less0)
  then show ?thesis by (simp add: nearEnd_def)
qed

lemma nearEnd_mono: assumes "binade v' = binade v" "v \<le> v'" shows "nearEnd v \<le> nearEnd v'"
proof -
  have "(v + 4 * fl_one - 2 ^ binade v) div fl_one \<le> (v' + 4 * fl_one - 2 ^ binade v) div fl_one"
    using assms(2) fl_one_pos by (intro zdiv_mono1) simp_all
  then show ?thesis by (simp add: nearEnd_def assms(1))
qed

lemma nearEnd_step: assumes "binade v' = binade v" "v + fl_one \<le> v'" "2 ^ binade v \<le> v + 4 * fl_one"
  shows "nearEnd v + 1 \<le> nearEnd v'"
proof -
  let ?a = "v + 4 * fl_one - 2 ^ binade v"
  have a: "0 \<le> ?a" using assms(3) by simp
  then have q: "0 \<le> ?a div fl_one" using fl_one_pos by (simp add: pos_imp_zdiv_nonneg_iff)
  have "(?a + fl_one) div fl_one \<le> (v' + 4 * fl_one - 2 ^ binade v) div fl_one"
    using assms(2) fl_one_pos by (intro zdiv_mono1) simp_all
  moreover have "(?a + fl_one) div fl_one = ?a div fl_one + 1"
    using fl_one_pos by (intro div_add_self2) simp
  ultimately show ?thesis using q by (simp add: nearEnd_def assms(1))
qed

lemma drift_lower: "18 * ulp32 v \<le> drift v"
proof -
  have "ulp32 v * 18 \<le> ulp32 v * (18 + 3 * nearEnd v)"
    using nearEnd_nonneg [of v] ulp32_pos [of v] by (intro mult_left_mono) simp_all
  then show ?thesis by (simp add: drift_def)
qed

lemma drift_upper: "drift v \<le> 30 * ulp32 v"
proof -
  have "ulp32 v * (18 + 3 * nearEnd v) \<le> ulp32 v * 30"
    using nearEnd_le [of v] ulp32_pos [of v] by (intro mult_left_mono) simp_all
  then show ?thesis by (simp add: drift_def)
qed

lemma drift_outside: "v + 4 * fl_one < 2 ^ binade v \<Longrightarrow> drift v = 18 * ulp32 v"
  by (simp add: drift_def nearEnd_outside)

lemma drift_mono: assumes "v \<le> v'" shows "drift v \<le> drift v'"
proof (cases "binade v = binade v'")
  case True
  then have "nearEnd v \<le> nearEnd v'" using assms by (intro nearEnd_mono) simp_all
  then have "ulp32 v' * (18 + 3 * nearEnd v) \<le> ulp32 v' * (18 + 3 * nearEnd v')"
    using ulp32_pos [of v'] by (intro mult_left_mono) simp_all
  then show ?thesis using True by (simp add: drift_def ulp32_def)
next
  case False
  then have "binade v < binade v'" using binade_mono [OF assms] by simp
  then have "2 * ulp32 v \<le> ulp32 v'" by (rule ulp32_double)
  then show ?thesis using drift_upper [of v] drift_lower [of v'] ulp32_pos [of v'] by linarith
qed

lemma drift_step:
  assumes "binade v' = binade v" "v + fl_one \<le> v'" "2 ^ binade v \<le> v + 4 * fl_one"
  shows "drift v + 3 * ulp32 v \<le> drift v'"
proof -
  have "nearEnd v + 1 \<le> nearEnd v'" using assms by (rule nearEnd_step)
  then have "ulp32 v * (18 + 3 * (nearEnd v + 1)) \<le> ulp32 v * (18 + 3 * nearEnd v')"
    using ulp32_pos [of v] by (intro mult_left_mono) simp_all
  then show ?thesis using assms(1) by (simp add: drift_def ulp32_def algebra_simps)
qed

text \<open>The least multiple of \<open>g\<close> above \<open>c\<close>.\<close>

lemma above_bounds: assumes "0 < (g::int)" shows "c < (c div g + 1) * g" "(c div g + 1) * g \<le> c + g"
proof -
  have e: "c = c div g * g + c mod g" by (rule div_mult_mod_eq [symmetric])
  have r: "0 \<le> c mod g" "c mod g < g" using assms by simp_all
  have m: "(c div g + 1) * g = c div g * g + g" by (simp add: algebra_simps)
  show "c < (c div g + 1) * g" unfolding m using e r by linarith
  show "(c div g + 1) * g \<le> c + g" unfolding m using e r by linarith
qed

lemma above_mono: assumes "0 < (g::int)" "g dvd g'" "0 < g'" "c \<le> c'"
  shows "(c div g + 1) * g \<le> (c' div g' + 1) * g'"
proof -
  let ?m = "(c' div g' + 1) * g'"
  have "g dvd ?m" using assms(2) by simp
  then obtain k where k: "?m = k * g" by (auto simp add: dvd_def mult.commute)
  have "c < ?m" using above_bounds(1) [OF assms(3), of c'] assms(4) by linarith
  then have "c div g < k" unfolding k using assms(1) by (intro int_div_lt)
  then have "(c div g + 1) * g \<le> k * g" using assms(1) by (intro mult_right_mono) simp_all
  then show ?thesis by (simp only: k)
qed

lemma ulp32_dvd: assumes "v \<le> v'" shows "2 * ulp32 v dvd 2 * ulp32 v'"
proof -
  have "(2::int) ^ (binade v - 24) dvd 2 ^ (binade v' - 24)"
    using binade_mono [OF assms] by (intro le_imp_power_dvd) simp
  then show ?thesis by (simp add: ulp32_def)
qed

lemma reach_mono: assumes "v \<le> v'" "c \<le> c'" shows "reach c v \<le> reach c' v'"
proof -
  have "(c div (2 * ulp32 v) + 1) * (2 * ulp32 v) \<le> (c' div (2 * ulp32 v') + 1) * (2 * ulp32 v')"
    using ulp32_pos [of v] ulp32_pos [of v'] ulp32_dvd [OF assms(1)] assms(2)
    by (intro above_mono) simp_all
  then show ?thesis using drift_mono [OF assms(1)] by (simp add: reach_def)
qed

lemma reach_lower: "c + 18 * ulp32 v < reach c v"
  using above_bounds(1) [of "2 * ulp32 v" c] ulp32_pos [of v] drift_lower [of v]
  by (simp add: reach_def)

lemma reach_upper: "reach c v \<le> c + 32 * ulp32 v"
  using above_bounds(2) [of "2 * ulp32 v" c] ulp32_pos [of v] drift_upper [of v]
  by (simp add: reach_def)

lemma reach_outside:
  assumes "v + 4 * fl_one < 2 ^ binade v"
  shows "2 * ulp32 v dvd reach c v"
proof -
  have "reach c v = (c div (2 * ulp32 v) + 1 + 9) * (2 * ulp32 v)"
    by (simp add: reach_def drift_outside [OF assms] algebra_simps)
  then show ?thesis by simp
qed

lemma fl_1_4_upper: "2 * fl_1_4 \<le> 3 * fl_one" by (simp add: fl_one_def fl_1_4_def)
lemma fl_1_4_lower: "11 * fl_one \<le> 8 * fl_1_4" by (simp add: fl_one_def fl_1_4_def)
lemma pow53: "(2::int) ^ 53 = 2 * fl_one" by (simp add: fl_one_def)

lemma bitlen_le_binade: "bitlen v \<le> binade v" by (simp add: binade_def)

lemma step32_upper: assumes "0 < v + c" shows "step32 c v \<le> v + c + ulp32 (v + c)"
proof -
  have "(2::int) ^ (bitlen (v + c) - 24) \<le> 2 ^ (binade (v + c) - 24)"
    using bitlen_le_binade [of "v + c"] by (intro power_increasing) simp_all
  then show ?thesis unfolding ulp32_def using step32_err [OF assms] by linarith
qed

lemma step32_lower: assumes "0 < v + c" shows "v + c - ulp32 (v + c) \<le> step32 c v"
proof -
  have "(2::int) ^ (bitlen (v + c) - 24) \<le> 2 ^ (binade (v + c) - 24)"
    using bitlen_le_binade [of "v + c"] by (intro power_increasing) simp_all
  then show ?thesis unfolding ulp32_def using step32_err [OF assms] by linarith
qed

lemma round_sig_pow: assumes "0 < p" shows "round_sig p (2 ^ j) = 2 ^ j"
proof -
  have "(2::int) ^ Suc j = 2 * 2 ^ j" by simp
  then have "bitlen (2 ^ j) = Suc j" using bitlen_eq [of j "2 ^ j"] by simp
  moreover have "Suc j - p \<le> j" using assms by simp
  ultimately have "2 ^ (bitlen (2 ^ j) - p) dvd (2::int) ^ j" by (simp only: le_imp_power_dvd)
  then show ?thesis by (rule round_sig_exact)
qed

lemma step32_pow: assumes "2 ^ j \<le> v + c" shows "2 ^ j \<le> step32 c v"
proof -
  have "to_double (2 ^ j) \<le> to_double (v + c)" using assms by (rule to_double_mono)
  then have "2 ^ j \<le> to_double (v + c)" by (simp add: to_double_def round_sig_pow)
  then have "to_float32 (2 ^ j) \<le> to_float32 (to_double (v + c))" by (rule to_float32_mono)
  then show ?thesis by (simp add: to_float32_def round_sig_pow step32_def)
qed

lemma binade_step: assumes "0 < v + c" shows "binade (v + c) \<le> binade (step32 c v)"
proof -
  have bp: "0 < bitlen (v + c)" using assms by (rule bitlen_pos)
  have "2 ^ (bitlen (v + c) - 1) \<le> v + c" using bitlen_bounds [OF assms] by simp
  then have "2 ^ (bitlen (v + c) - 1) \<le> step32 c v" by (rule step32_pow)
  then have "bitlen (v + c) - 1 < binade (step32 c v)" by (rule binade_greater)
  then show ?thesis using binade_ge [of "step32 c v"] by (simp add: binade_def)
qed

lemma ulp32_step: "0 < v + c \<Longrightarrow> ulp32 (v + c) \<le> ulp32 (step32 c v)"
  unfolding ulp32_def using binade_step [of v c] by (intro power_increasing) simp_all

text \<open>Adding 1 within a binade is exact.\<close>

lemma step32_one_exact:
  assumes "is_single b" "b = 0 \<or> fl_one \<le> b" "b < 2 ^ 75" "binade (b + fl_one) = binade b"
  shows "step32 fl_one b = b + fl_one"
proof -
  let ?n = "b + fl_one"
  have n: "fl_one \<le> ?n" using assms(2) fl_one_pos by auto
  have bn: "bitlen ?n = binade b" using binade_bitlen [OF n] assms(4) by simp
  have sb: "binade b \<le> 75" using assms(3) by (intro binade_less) simp_all
  have d1: "2 ^ (binade b - 24) dvd fl_one"
  proof -
    have "binade b - 24 \<le> 52" using sb by simp
    then show ?thesis unfolding fl_one_def by (rule le_imp_power_dvd)
  qed
  have d2: "2 ^ (binade b - 24) dvd b"
  proof (cases "b = 0")
    case True
    then show ?thesis by simp
  next
    case False
    with assms(2) have "fl_one \<le> b" by simp
    then have "binade b = bitlen b" by (rule binade_bitlen)
    then show ?thesis using single_dvd [OF assms(1)] by simp
  qed
  have d: "2 ^ (bitlen ?n - 24) dvd ?n" unfolding bn using d1 d2 by (simp add: dvd_add)
  have "(2::int) ^ (bitlen ?n - 53) dvd 2 ^ (bitlen ?n - 24)" by (rule le_imp_power_dvd) simp
  then have "2 ^ (bitlen ?n - 53) dvd ?n" using d by (rule dvd_trans)
  then have "to_double ?n = ?n" unfolding to_double_def by (rule round_sig_exact)
  moreover have "to_float32 ?n = ?n" unfolding to_float32_def using d by (rule round_sig_exact)
  ultimately show ?thesis by (simp add: step32_def)
qed

lemma step32_advance:
  assumes "is_single b" "b = 0 \<or> fl_one \<le> b" "b < 2 ^ 75" "fl_one \<le> c"
    and "binade (step32 c b) = binade b"
  shows "b + fl_one \<le> step32 c b"
proof (cases "binade (b + fl_one) = binade b")
  case True
  have "step32 fl_one b \<le> step32 c b" using assms(4) by (intro step32_mono) simp_all
  then show ?thesis using step32_one_exact [OF assms(1-3) True] by simp
next
  case False
  have "binade b \<le> binade (b + fl_one)" using fl_one_pos by (intro binade_mono) simp
  with False have "binade b < binade (b + fl_one)" by simp
  have "2 ^ binade b \<le> b + fl_one"
  proof (rule ccontr)
    assume "\<not> 2 ^ binade b \<le> b + fl_one"
    then have "binade (b + fl_one) \<le> binade b" by (intro binade_less binade_ge) simp
    with \<open>binade b < binade (b + fl_one)\<close> show False by simp
  qed
  then have "2 ^ binade b \<le> b + c" using assms(4) by linarith
  then have "2 ^ binade b \<le> step32 c b" by (rule step32_pow)
  then have "binade b < binade (step32 c b)" by (rule binade_greater)
  with assms(5) show ?thesis by simp
qed

lemma ulp32_bound69: assumes "b < 2 ^ 69" shows "128 * ulp32 b \<le> fl_one"
  using ulp32_small [of b 17] assms by simp

lemma ulp32_bound70: assumes "b < 2 ^ 70" shows "64 * ulp32 b \<le> fl_one"
  using ulp32_small [of b 18] assms by simp

lemma pow69: "(2::int) ^ 69 = 131072 * fl_one" by (simp add: fl_one_def)
lemma pow70: "(2::int) ^ 70 = 262144 * fl_one" by (simp add: fl_one_def)

lemma step32_bound70:
  assumes "0 \<le> b" "b < 2 ^ 69" "fl_one \<le> c" "c \<le> fl_1_4"
  shows "step32 c b < 2 ^ 70"
proof -
  have pos: "0 < b + c" using assms(1,3) fl_one_pos by linarith
  have "b + c < 2 ^ 70" using assms(2,4) fl_1_4_upper fl_one_pos unfolding pow69 pow70 by linarith
  then have "64 * ulp32 (b + c) \<le> fl_one" by (rule ulp32_bound70)
  then show ?thesis
    using step32_upper [OF pos] assms(2,4) fl_1_4_upper fl_one_pos unfolding pow69 pow70 by linarith
qed

lemma half_abs_le: "2 * \<bar>d\<bar> \<le> A \<Longrightarrow> A \<le> B \<Longrightarrow> 0 < B \<Longrightarrow> d \<le> (B::int)"
  by linarith

text \<open>
  The step of the chain: a bound \<open>a \<le> b + reach c b\<close> between two values survives the addition
  of a cost to both.
\<close>

lemma chain_step:
  assumes sb: "is_single b" and b0: "b = 0 \<or> fl_one \<le> b" and bb: "b < 2 ^ 69"
    and c: "fl_one \<le> c" "c \<le> fl_1_4" and c': "fl_one \<le> c'" "c' \<le> fl_1_4"
  shows "step32 c' (b + reach c b) \<le> step32 c' b + reach c (step32 c' b)"
proof -
  let ?K = "reach c b"
  let ?b' = "step32 c' b"
  let ?u = "ulp32 b"
  let ?u' = "ulp32 ?b'"
  have bnn: "0 \<le> b" using b0 fl_one_pos by auto
  have u: "128 * ?u \<le> fl_one" using bb by (rule ulp32_bound69)
  have up: "0 < ?u" by (rule ulp32_pos)
  have Kl: "c + 18 * ?u < ?K" by (rule reach_lower)
  have Ku: "?K \<le> c + 32 * ?u" by (rule reach_upper)
  have pos: "0 < b + c'" using bnn c'(1) fl_one_pos by linarith
  have bb': "b \<le> ?b'" using sb c'(1) fl_one_pos by (intro step32_ge) simp_all
  show ?thesis
  proof (cases "b + 4 * fl_one < 2 ^ binade b")
    case True
    have b1: "fl_one \<le> b"
    proof (rule ccontr)
      assume "\<not> fl_one \<le> b"
      with b0 have "b = 0" by simp
      with True show False by (simp add: binade_zero fl_one_def)
    qed
    let ?L = "binade b"
    have L: "?L = bitlen b" using b1 by (rule binade_bitlen)
    obtain j where j: "?L = Suc j" using binade_ge [of b] by (cases ?L) auto
    have lo: "2 ^ j \<le> b" using binade_lower [OF b1] j by simp
    let ?n = "b + c'"
    have n1: "2 ^ j \<le> ?n" using lo c'(1) fl_one_pos by linarith
    have n2: "?n + ?K + ?u < 2 ^ Suc j"
      using True Ku u c(2) c'(2) fl_1_4_upper fl_one_pos unfolding j by linarith
    have bn: "bitlen ?n = ?L" unfolding j using n1 n2 Kl up c(1) fl_one_pos
      by (intro bitlen_eq) linarith+
    have bnK: "bitlen (?n + ?K) = ?L" unfolding j using n1 n2 Kl up c(1) fl_one_pos
      by (intro bitlen_eq) linarith+
    have dK: "2 * ?u dvd ?K" using True by (rule reach_outside)
    have d53: "2 * 2 ^ (?L - 53) dvd ?K"
    proof -
      have "(2::int) ^ (?L - 53) dvd 2 ^ (?L - 24)" by (rule le_imp_power_dvd) simp
      then have "2 * (2::int) ^ (?L - 53) dvd 2 * 2 ^ (?L - 24)" by (rule mult_dvd_mono [OF dvd_refl])
      then show ?thesis using dK unfolding ulp32_def by (rule dvd_trans)
    qed
    have td: "to_double (?n + ?K) = to_double ?n + ?K"
      unfolding to_double_def using bnK d53 by (intro round_sig_shift) (simp_all add: bn)
    let ?y = "to_double ?n"
    have y1: "2 ^ j \<le> ?y"
      using round_sig_lower [OF pos, of 53] bn j by (simp add: to_double_def)
    have e53: "2 * \<bar>?y - ?n\<bar> \<le> 2 ^ (?L - 53)"
      using round_sig_err [of 53 ?n] bn by (simp add: to_double_def)
    have p53: "(2::int) ^ (?L - 53) \<le> 2 ^ (?L - 24)" by (rule power_increasing) simp_all
    have "?y - ?n \<le> 2 ^ (?L - 24)" using e53 p53 by (rule half_abs_le) simp
    then have y2: "?y \<le> ?n + ?u" by (simp only: ulp32_def)
    have by1: "bitlen ?y = ?L" unfolding j using y1 y2 n2 Kl up c(1) fl_one_pos
      by (intro bitlen_eq) linarith+
    have byK: "bitlen (?y + ?K) = ?L" unfolding j using y1 y2 n2 Kl up c(1) fl_one_pos
      by (intro bitlen_eq) linarith+
    have d24: "2 * 2 ^ (bitlen ?y - 24) dvd ?K" using dK by (simp add: by1 ulp32_def)
    have tf: "to_float32 (?y + ?K) = to_float32 ?y + ?K"
      unfolding to_float32_def using byK d24 by (intro round_sig_shift) (simp_all add: by1)
    have "b + ?K + c' = ?n + ?K" by simp
    then have "step32 c' (b + ?K) = to_float32 (to_double (?n + ?K))" by (simp only: step32_def)
    also have "\<dots> = to_float32 (?y + ?K)" by (simp only: td)
    also have "\<dots> = ?b' + ?K" by (simp only: tf step32_def)
    finally have "step32 c' (b + ?K) = ?b' + ?K" .
    moreover have "?K \<le> reach c ?b'" using bb' by (intro reach_mono) simp_all
    ultimately show ?thesis by linarith
  next
    case False
    then have win: "2 ^ binade b \<le> b + 4 * fl_one" by simp
    have b'70: "?b' < 2 ^ 70" using bnn bb c' by (rule step32_bound70)
    have u': "64 * ?u' \<le> fl_one" using b'70 by (rule ulp32_bound70)
    have uu': "?u \<le> ?u'" using bb' by (rule ulp32_mono)
    have low: "b + c' \<le> ?b' + ?u'"
      using step32_lower [OF pos] ulp32_step [OF pos] by linarith
    let ?a = "b + ?K + c'"
    have apos: "0 < ?a" using pos Kl up c(1) fl_one_pos by linarith
    have "?a < ?b' + 2 * fl_one"
      using low Ku u u' uu' c(2) fl_1_4_upper fl_one_pos by linarith
    also have "\<dots> \<le> ?b' + 2 ^ binade ?b'"
    proof -
      have "(2::int) ^ 53 \<le> 2 ^ binade ?b'" using binade_ge [of ?b'] by (intro power_increasing) simp_all
      then show ?thesis by (simp add: fl_one_def)
    qed
    also have "\<dots> < 2 ^ Suc (binade ?b')" using binade_upper [of ?b'] by simp
    finally have lt: "?a < 2 ^ Suc (binade ?b')" .
    have "binade ?a \<le> Suc (binade ?b')"
    proof (rule binade_less [OF lt])
      show "53 \<le> Suc (binade ?b')" using binade_ge [of ?b'] by linarith
    qed
    then have "ulp32 ?a \<le> 2 ^ 1 * ?u'" by (intro ulp32_next) simp
    then have ua: "ulp32 ?a \<le> 2 * ?u'" by simp
    have "step32 c' (b + ?K) \<le> ?a + ulp32 ?a" using step32_upper [of "b + ?K" c'] apos by simp
    then have main: "step32 c' (b + ?K) \<le> ?b' + ?K + 3 * ?u'" using ua low by linarith
    show ?thesis
    proof (cases "binade ?b' = binade b")
      case True
      have adv: "b + fl_one \<le> ?b'" using sb b0 _ c'(1) True
        by (rule step32_advance) (use bb in \<open>simp add: pow69 fl_one_def\<close>)
      have "drift b + 3 * ?u \<le> drift ?b'" using True adv win by (rule drift_step)
      moreover have "?u' = ?u" using True by (simp add: ulp32_def)
      ultimately have "?K + 3 * ?u' \<le> reach c ?b'" by (simp add: reach_def)
      with main show ?thesis by linarith
    next
      case False
      then have "binade b < binade ?b'" using binade_mono [OF bb'] by simp
      then have d: "2 * ?u \<le> ?u'" by (rule ulp32_double)
      have "(c div (2 * ?u) + 1) * (2 * ?u) \<le> (c div (2 * ?u') + 1) * (2 * ?u')"
        using up ulp32_pos [of ?b'] ulp32_dvd [OF bb'] by (intro above_mono) simp_all
      then have "?K + 3 * ?u' \<le> reach c ?b'"
        using drift_upper [of b] drift_lower [of ?b'] d by (simp add: reach_def)
      with main show ?thesis by linarith
    qed
  qed
qed

lemma ulp32_near:
  assumes "x \<le> t + 2 * fl_one" shows "ulp32 x \<le> 2 * ulp32 t"
proof -
  have "(2::int) ^ 53 \<le> 2 ^ binade t" using binade_ge [of t] by (intro power_increasing) simp_all
  then have "x < 2 ^ Suc (binade t)" using assms binade_upper [of t] by (simp add: fl_one_def)
  then have "binade x \<le> binade t + 1" using binade_ge [of t] by (intro binade_less) simp_all
  then have "ulp32 x \<le> 2 ^ 1 * ulp32 t" by (rule ulp32_next)
  then show ?thesis by simp
qed

lemma ulp32_near2:
  assumes "x \<le> t + 6 * fl_one" shows "ulp32 x \<le> 4 * ulp32 t"
proof -
  have "(2::int) ^ 53 \<le> 2 ^ binade t" using binade_ge [of t] by (intro power_increasing) simp_all
  then have "x < 2 ^ (binade t + 2)" using assms binade_upper [of t] by (simp add: fl_one_def)
  then have "binade x \<le> binade t + 2" using binade_ge [of t] by (intro binade_less) simp_all
  then have "ulp32 x \<le> 2 ^ 2 * ulp32 t" by (rule ulp32_next)
  then show ?thesis by simp
qed

lemma step_le_reach:
  assumes "0 \<le> t" "fl_one \<le> c" "c \<le> fl_1_4"
  shows "step32 c t \<le> t + reach c t"
proof -
  have pos: "0 < t + c" using assms(1,2) fl_one_pos by linarith
  have "ulp32 (t + c) \<le> 2 * ulp32 t"
    using assms(3) fl_1_4_upper fl_one_pos by (intro ulp32_near) linarith
  then show ?thesis using step32_upper [OF pos] reach_lower [of c t] ulp32_pos [of t] by linarith
qed

lemma diag_le_two_steps:
  assumes "0 \<le> t" "t < 2 ^ 69"
  shows "step32 fl_1_4 t \<le> step32 fl_one t + reach fl_one (step32 fl_one t)"
proof -
  have u: "128 * ulp32 t \<le> fl_one" using assms(2) by (rule ulp32_bound69)
  have p1: "0 < t + fl_one" and p2: "0 < t + fl_1_4" using assms(1) fl_one_pos fl_1_4_ge by linarith+
  have u1: "ulp32 (t + fl_one) \<le> 2 * ulp32 t" using fl_one_pos by (intro ulp32_near) linarith
  have u2: "ulp32 (t + fl_1_4) \<le> 2 * ulp32 t"
    using fl_1_4_upper fl_one_pos by (intro ulp32_near) linarith
  show ?thesis
    using step32_upper [OF p2] step32_lower [OF p1] u1 u2 u fl_1_4_upper
      reach_lower [of fl_one "step32 fl_one t"] ulp32_pos [of "step32 fl_one t"] ulp32_pos [of t]
    by linarith
qed

lemma two_steps_le_diag:
  assumes "0 \<le> t" "t < 2 ^ 69"
  shows "step32 fl_one (step32 fl_one t) \<le> step32 fl_1_4 t + reach fl_1_4 (step32 fl_1_4 t)"
proof -
  let ?r1 = "step32 fl_one t"
  have u: "128 * ulp32 t \<le> fl_one" using assms(2) by (rule ulp32_bound69)
  have up: "0 < ulp32 t" by (rule ulp32_pos)
  have p1: "0 < t + fl_one" and p2: "0 < t + fl_1_4" using assms(1) fl_one_pos fl_1_4_ge by linarith+
  have u1: "ulp32 (t + fl_one) \<le> 2 * ulp32 t" using fl_one_pos by (intro ulp32_near) linarith
  have u2: "ulp32 (t + fl_1_4) \<le> 2 * ulp32 t"
    using fl_1_4_upper fl_one_pos by (intro ulp32_near) linarith
  have r1: "?r1 \<le> t + fl_one + 2 * ulp32 t" using step32_upper [OF p1] u1 by linarith
  have r1l: "t + fl_one - 2 * ulp32 t \<le> ?r1" using step32_lower [OF p1] u1 by linarith
  have p3: "0 < ?r1 + fl_one" using r1l assms(1) u up fl_one_pos by linarith
  have u3: "ulp32 (?r1 + fl_one) \<le> 4 * ulp32 t" using r1 u up fl_one_pos by (intro ulp32_near2) linarith
  show ?thesis
    using step32_upper [OF p3] u3 r1 step32_lower [OF p2] u2 u up fl_1_4_lower
      reach_lower [of fl_1_4 "step32 fl_1_4 t"] ulp32_pos [of "step32 fl_1_4 t"]
    by linarith
qed

lemma diag_reach_le_step:
  assumes "0 \<le> t" "t < 2 ^ 69"
  shows "t + reach fl_1_4 t \<le> step32 fl_one t + reach fl_one (step32 fl_one t)"
proof -
  have u: "128 * ulp32 t \<le> fl_one" using assms(2) by (rule ulp32_bound69)
  have p1: "0 < t + fl_one" using assms(1) fl_one_pos by linarith
  have u1: "ulp32 (t + fl_one) \<le> 2 * ulp32 t" using fl_one_pos by (intro ulp32_near) linarith
  show ?thesis
    using reach_upper [of fl_1_4 t] step32_lower [OF p1] u1 u fl_1_4_upper
      reach_lower [of fl_one "step32 fl_one t"] ulp32_pos [of "step32 fl_one t"] ulp32_pos [of t]
    by linarith
qed

lemma two_reach_le_diag:
  assumes "0 \<le> t" "t < 2 ^ 69" "s \<le> t + reach fl_one t"
  shows "s + reach fl_one s \<le> step32 fl_1_4 t + reach fl_1_4 (step32 fl_1_4 t)"
proof -
  let ?S = "t + reach fl_one t"
  have u: "128 * ulp32 t \<le> fl_one" using assms(2) by (rule ulp32_bound69)
  have up: "0 < ulp32 t" by (rule ulp32_pos)
  have S: "?S \<le> t + fl_one + 32 * ulp32 t" using reach_upper [of fl_one t] by linarith
  have uS: "ulp32 ?S \<le> 2 * ulp32 t" using S u up by (intro ulp32_near) linarith
  have "s + reach fl_one s \<le> ?S + reach fl_one ?S"
    using assms(3) reach_mono [OF assms(3), of fl_one fl_one] by linarith
  also have "\<dots> \<le> t + 2 * fl_one + 96 * ulp32 t"
    using S uS reach_upper [of fl_one ?S] by linarith
  finally have l: "s + reach fl_one s \<le> t + 2 * fl_one + 96 * ulp32 t" .
  have p2: "0 < t + fl_1_4" using assms(1) fl_one_pos fl_1_4_ge by linarith
  have u2: "ulp32 (t + fl_1_4) \<le> 2 * ulp32 t"
    using fl_1_4_upper fl_one_pos by (intro ulp32_near) linarith
  have u3: "ulp32 t \<le> ulp32 (step32 fl_1_4 t)"
  proof -
    have "ulp32 t \<le> ulp32 (t + fl_1_4)" using fl_one_pos fl_1_4_ge by (intro ulp32_mono) linarith
    also have "\<dots> \<le> ulp32 (step32 fl_1_4 t)" using p2 by (rule ulp32_step)
    finally show ?thesis .
  qed
  show ?thesis
    using l step32_lower [OF p2] u2 u3 u up fl_1_4_lower reach_lower [of fl_1_4 "step32 fl_1_4 t"]
    by linarith
qed

subsection \<open>Bounds between neighbours\<close>

lemma bwd_closedD:
  assumes "bwd_closed w h F D"
  shows "x < w \<Longrightarrow> y < h \<Longrightarrow> is_single (D x y)"
    and "x < w \<Longrightarrow> y < h \<Longrightarrow> D x y = 0 \<or> fl_one \<le> D x y"
    and "x < w \<Longrightarrow> y < h \<Longrightarrow> D x y \<le> F x y"
    and "x < w \<Longrightarrow> y < h \<Longrightarrow>
         D x y = F x y \<or>
         (x + 1 < w \<and> D x y = step32 fl_one (D (x + 1) y)) \<or>
         (y + 1 < h \<and> D x y = step32 fl_one (D x (y + 1))) \<or>
         (x + 1 < w \<and> y + 1 < h \<and> D x y = step32 fl_1_4 (D (x + 1) (y + 1))) \<or>
         (0 < x \<and> y + 1 < h \<and> D x y = step32 fl_1_4 (D (x - 1) (y + 1)))"
    and "x + 1 < w \<Longrightarrow> y < h \<Longrightarrow> D x y \<le> step32 fl_one (D (x + 1) y)"
    and "x < w \<Longrightarrow> y + 1 < h \<Longrightarrow> D x y \<le> step32 fl_one (D x (y + 1))"
    and "x + 1 < w \<Longrightarrow> y + 1 < h \<Longrightarrow> D x y \<le> step32 fl_1_4 (D (x + 1) (y + 1))"
    and "x + 1 < w \<Longrightarrow> y + 1 < h \<Longrightarrow> D (x + 1) y \<le> step32 fl_1_4 (D x (y + 1))"
  using assms unfolding bwd_closed_def by blast+

lemma fwd_closedD:
  assumes "fwd_closed w h F"
  shows "x + 1 < w \<Longrightarrow> y < h \<Longrightarrow> F (x + 1) y \<le> step32 fl_one (F x y)"
    and "x < w \<Longrightarrow> y + 1 < h \<Longrightarrow> F x (y + 1) \<le> step32 fl_one (F x y)"
    and "x + 1 < w \<Longrightarrow> y + 1 < h \<Longrightarrow> F (x + 1) (y + 1) \<le> step32 fl_1_4 (F x y)"
    and "x + 1 < w \<Longrightarrow> y + 1 < h \<Longrightarrow> F x (y + 1) \<le> step32 fl_1_4 (F (x + 1) y)"
    and "x < w \<Longrightarrow> y < h \<Longrightarrow>
        F x y = 0 \<or> F x y = fl_inf \<or>
        (0 < x \<and> F x y = step32 fl_one (F (x - 1) y)) \<or>
        (0 < y \<and> F x y = step32 fl_one (F x (y - 1))) \<or>
        (0 < x \<and> 0 < y \<and> F x y = step32 fl_1_4 (F (x - 1) (y - 1))) \<or>
        (x + 1 < w \<and> 0 < y \<and> F x y = step32 fl_1_4 (F (x + 1) (y - 1)))"
  using assms unfolding fwd_closed_def by blast+

lemma closed_nonneg:
  assumes "bwd_closed w h F D" "x < w" "y < h" shows "0 \<le> D x y"
  using bwd_closedD(2) [OF assms] fl_one_pos by linarith

lemma reach_step_mono:
  assumes "t \<le> t'" "c \<le> c'" shows "t + reach c t \<le> t' + reach c' t'"
  using assms reach_mono [OF assms] by linarith

text \<open>Towards the left neighbour.\<close>

lemma right_bound:
  assumes B: "bwd_closed w h F D" and Fw: "fwd_closed w h F"
  shows "x + 1 < w \<Longrightarrow> y < h \<Longrightarrow> D x y < 2 ^ 69 \<Longrightarrow> D (x + 1) y \<le> D x y + reach fl_one (D x y)"
proof (induction "h - y" arbitrary: x y rule: less_induct)
  case less
  note x = \<open>x + 1 < w\<close> and y = \<open>y < h\<close> and bd = \<open>D x y < 2 ^ 69\<close>
  have xw: "x < w" using x by simp
  let ?q = "D x y" and ?p = "D (x + 1) y"
  have q0: "0 \<le> ?q" using B xw y by (rule closed_nonneg)
  consider (a) "?q = F x y"
    | (b) "?q = step32 fl_one ?p"
    | (c) "y + 1 < h" "?q = step32 fl_one (D x (y + 1))"
    | (d) "y + 1 < h" "?q = step32 fl_1_4 (D (x + 1) (y + 1))"
    | (e) "0 < x" "y + 1 < h" "?q = step32 fl_1_4 (D (x - 1) (y + 1))"
    using bwd_closedD(4) [OF B xw y] by blast
  then show ?case
  proof cases
    case a
    have "?p \<le> F (x + 1) y" using B x y by (rule bwd_closedD(3))
    also have "\<dots> \<le> step32 fl_one (F x y)" using Fw x y by (rule fwd_closedD(1))
    also have "\<dots> = step32 fl_one ?q" by (simp only: a)
    also have "\<dots> \<le> ?q + reach fl_one ?q" using q0 fl_1_4_ge by (intro step_le_reach) simp_all
    finally show ?thesis .
  next
    case b
    have "?p \<le> step32 fl_one ?p" using bwd_closedD(1) [OF B x y] fl_one_pos by (intro step32_ge) simp_all
    then have "?p \<le> ?q" by (simp only: b)
    moreover have "0 < reach fl_one ?q" using reach_lower [of fl_one ?q] ulp32_pos [of ?q] fl_one_pos by linarith
    ultimately show ?thesis by linarith
  next
    case c
    let ?t = "D x (y + 1)"
    have ts: "is_single ?t" using B xw c(1) by (rule bwd_closedD(1))
    have t0: "0 \<le> ?t" using B xw c(1) by (rule closed_nonneg)
    have "?t \<le> ?q" unfolding c(2) using ts fl_one_pos by (intro step32_ge) simp_all
    then have tb: "?t < 2 ^ 69" using bd by linarith
    have "?p \<le> step32 fl_1_4 ?t" using B x c(1) by (rule bwd_closedD(8))
    also have "\<dots> \<le> step32 fl_one ?t + reach fl_one (step32 fl_one ?t)" using t0 tb by (rule diag_le_two_steps)
    finally show ?thesis by (simp only: c(2))
  next
    case d
    let ?t = "D (x + 1) (y + 1)"
    have "?p \<le> step32 fl_one ?t" using B _ d(1) by (rule bwd_closedD(6)) (use x in simp)
    also have "\<dots> \<le> step32 fl_1_4 ?t" using fl_1_4_ge by (intro step32_mono) simp_all
    finally have "?p \<le> ?q" by (simp only: d(2))
    moreover have "0 < reach fl_one ?q" using reach_lower [of fl_one ?q] ulp32_pos [of ?q] fl_one_pos by linarith
    ultimately show ?thesis by linarith
  next
    case e
    let ?t = "D (x - 1) (y + 1)"
    have x1: "x - 1 + 1 = x" using e(1) by simp
    have x1w: "x - 1 < w" using xw by simp
    have ts: "is_single ?t" using B x1w e(2) by (rule bwd_closedD(1))
    have t0: "?t = 0 \<or> fl_one \<le> ?t" using B x1w e(2) by (rule bwd_closedD(2))
    have "?t \<le> ?q" unfolding e(3) using ts fl_one_pos fl_1_4_ge by (intro step32_ge) simp_all
    then have tb: "?t < 2 ^ 69" using bd by linarith
    have "h - (y + 1) < h - y" using y by simp
    moreover have "x - 1 + 1 < w" using xw x1 by simp
    ultimately have "D (x - 1 + 1) (y + 1) \<le> ?t + reach fl_one ?t" using e(2) tb by (rule less.hyps)
    then have ih: "D x (y + 1) \<le> ?t + reach fl_one ?t" by (simp only: x1)
    have "?p \<le> step32 fl_1_4 (D x (y + 1))" using B x e(2) by (rule bwd_closedD(8))
    also have "\<dots> \<le> step32 fl_1_4 (?t + reach fl_one ?t)" using ih by (intro step32_mono) simp_all
    also have "\<dots> \<le> step32 fl_1_4 ?t + reach fl_one (step32 fl_1_4 ?t)"
      using ts t0 tb fl_1_4_ge by (intro chain_step) simp_all
    finally show ?thesis by (simp only: e(3))
  qed
qed

lemma reach_pos: "fl_one \<le> c \<Longrightarrow> 0 < reach c v"
  using reach_lower [of c v] ulp32_pos [of v] fl_one_pos by linarith

text \<open>Towards the upper right neighbour.\<close>

lemma downleft_bound:
  assumes B: "bwd_closed w h F D" and Fw: "fwd_closed w h F"
  shows "x + 1 < w \<Longrightarrow> y + 1 < h \<Longrightarrow> D (x + 1) y < 2 ^ 69 \<Longrightarrow>
         D x (y + 1) \<le> D (x + 1) y + reach fl_1_4 (D (x + 1) y)"
proof (induction "w - x" arbitrary: x rule: less_induct)
  case less
  note x = \<open>x + 1 < w\<close> and y = \<open>y + 1 < h\<close> and bd = \<open>D (x + 1) y < 2 ^ 69\<close>
  have xw: "x < w" using x by simp
  have yh: "y < h" using y by simp
  let ?q = "D (x + 1) y" and ?p = "D x (y + 1)"
  have q0: "0 \<le> ?q" using B x yh by (rule closed_nonneg)
  have ps: "is_single ?p" using B xw y by (rule bwd_closedD(1))
  consider (a) "?q = F (x + 1) y"
    | (b) "x + 1 + 1 < w" "?q = step32 fl_one (D (x + 1 + 1) y)"
    | (c) "?q = step32 fl_one (D (x + 1) (y + 1))"
    | (d) "x + 1 + 1 < w" "?q = step32 fl_1_4 (D (x + 1 + 1) (y + 1))"
    | (e) "?q = step32 fl_1_4 (D (x + 1 - 1) (y + 1))"
    using bwd_closedD(4) [OF B x yh] by blast
  then show ?case
  proof cases
    case a
    have "?p \<le> F x (y + 1)" using B xw y by (rule bwd_closedD(3))
    also have "\<dots> \<le> step32 fl_1_4 (F (x + 1) y)" using Fw x y by (rule fwd_closedD(4))
    also have "\<dots> = step32 fl_1_4 ?q" by (simp only: a)
    also have "\<dots> \<le> ?q + reach fl_1_4 ?q" using q0 fl_1_4_ge by (intro step_le_reach) simp_all
    finally show ?thesis .
  next
    case b
    let ?t = "D (x + 1 + 1) y"
    have ts: "is_single ?t" using B b(1) yh by (rule bwd_closedD(1))
    have t0: "?t = 0 \<or> fl_one \<le> ?t" using B b(1) yh by (rule bwd_closedD(2))
    have "?t \<le> ?q" unfolding b(2) using ts fl_one_pos by (intro step32_ge) simp_all
    then have tb: "?t < 2 ^ 69" using bd by linarith
    have "w - (x + 1) < w - x" using xw by simp
    then have ih: "D (x + 1) (y + 1) \<le> ?t + reach fl_1_4 ?t" using b(1) y tb by (rule less.hyps)
    have "?p \<le> step32 fl_one (D (x + 1) (y + 1))" using B x _ by (rule bwd_closedD(5)) (use y in simp)
    also have "\<dots> \<le> step32 fl_one (?t + reach fl_1_4 ?t)" using ih by (intro step32_mono) simp_all
    also have "\<dots> \<le> step32 fl_one ?t + reach fl_1_4 (step32 fl_one ?t)"
      using ts t0 tb fl_1_4_ge by (intro chain_step) simp_all
    finally show ?thesis by (simp only: b(2))
  next
    case c
    have "?p \<le> step32 fl_one (D (x + 1) (y + 1))" using B x _ by (rule bwd_closedD(5)) (use y in simp)
    then have "?p \<le> ?q" by (simp only: c)
    then show ?thesis using reach_pos [of fl_1_4 ?q] fl_1_4_ge by linarith
  next
    case d
    let ?t = "D (x + 1 + 1) (y + 1)"
    have ts: "is_single ?t" using B d(1) y by (rule bwd_closedD(1))
    have t0: "0 \<le> ?t" using B d(1) y by (rule closed_nonneg)
    have "?t \<le> ?q" unfolding d(2) using ts fl_one_pos fl_1_4_ge by (intro step32_ge) simp_all
    then have tb: "?t < 2 ^ 69" using bd by linarith
    have m: "D (x + 1) (y + 1) \<le> step32 fl_one ?t" using B d(1) _ by (rule bwd_closedD(5)) (use y in simp)
    have "?p \<le> step32 fl_one (D (x + 1) (y + 1))" using B x _ by (rule bwd_closedD(5)) (use y in simp)
    also have "\<dots> \<le> step32 fl_one (step32 fl_one ?t)" using m by (intro step32_mono) simp_all
    also have "\<dots> \<le> step32 fl_1_4 ?t + reach fl_1_4 (step32 fl_1_4 ?t)" using t0 tb by (rule two_steps_le_diag)
    finally show ?thesis by (simp only: d(2))
  next
    case e
    have "?p \<le> step32 fl_1_4 ?p" using ps fl_one_pos fl_1_4_ge by (intro step32_ge) simp_all
    then have "?p \<le> ?q" using e by simp
    then show ?thesis using reach_pos [of fl_1_4 ?q] fl_1_4_ge by linarith
  qed
qed

text \<open>Towards the upper neighbour.\<close>

lemma down_bound:
  assumes B: "bwd_closed w h F D" and Fw: "fwd_closed w h F"
    and x: "x < w" and y: "y + 1 < h" and bd: "D x y < 2 ^ 69"
  shows "D x (y + 1) \<le> D x y + reach fl_one (D x y)"
proof -
  have yh: "y < h" using y by simp
  let ?q = "D x y" and ?p = "D x (y + 1)"
  have q0: "0 \<le> ?q" using B x yh by (rule closed_nonneg)
  have ps: "is_single ?p" using B x y by (rule bwd_closedD(1))
  consider (a) "?q = F x y"
    | (b) "x + 1 < w" "?q = step32 fl_one (D (x + 1) y)"
    | (c) "?q = step32 fl_one ?p"
    | (d) "x + 1 < w" "?q = step32 fl_1_4 (D (x + 1) (y + 1))"
    | (e) "0 < x" "?q = step32 fl_1_4 (D (x - 1) (y + 1))"
    using bwd_closedD(4) [OF B x yh] by blast
  then show ?thesis
  proof cases
    case a
    have "?p \<le> F x (y + 1)" using B x y by (rule bwd_closedD(3))
    also have "\<dots> \<le> step32 fl_one (F x y)" using Fw x y by (rule fwd_closedD(2))
    also have "\<dots> = step32 fl_one ?q" by (simp only: a)
    also have "\<dots> \<le> ?q + reach fl_one ?q" using q0 fl_1_4_ge by (intro step_le_reach) simp_all
    finally show ?thesis .
  next
    case b
    let ?t = "D (x + 1) y"
    have ts: "is_single ?t" using B b(1) yh by (rule bwd_closedD(1))
    have t0: "0 \<le> ?t" using B b(1) yh by (rule closed_nonneg)
    have "?t \<le> ?q" unfolding b(2) using ts fl_one_pos by (intro step32_ge) simp_all
    then have tb: "?t < 2 ^ 69" using bd by linarith
    have "?p \<le> ?t + reach fl_1_4 ?t" using B Fw b(1) y tb by (rule downleft_bound)
    also have "\<dots> \<le> step32 fl_one ?t + reach fl_one (step32 fl_one ?t)" using t0 tb by (rule diag_reach_le_step)
    finally show ?thesis by (simp only: b(2))
  next
    case c
    have "?p \<le> step32 fl_one ?p" using ps fl_one_pos by (intro step32_ge) simp_all
    then have "?p \<le> ?q" by (simp only: c)
    then show ?thesis using reach_pos [of fl_one ?q] by linarith
  next
    case d
    have "?p \<le> step32 fl_one (D (x + 1) (y + 1))" using B d(1) _ by (rule bwd_closedD(5)) (use y in simp)
    also have "\<dots> \<le> step32 fl_1_4 (D (x + 1) (y + 1))" using fl_1_4_ge by (intro step32_mono) simp_all
    finally have "?p \<le> ?q" by (simp only: d(2))
    then show ?thesis using reach_pos [of fl_one ?q] by linarith
  next
    case e
    let ?t = "D (x - 1) (y + 1)"
    have x1: "x - 1 + 1 = x" using e(1) by simp
    have x1w: "x - 1 < w" using x by simp
    have ts: "is_single ?t" using B x1w y by (rule bwd_closedD(1))
    have tq: "?t \<le> ?q" unfolding e(2) using ts fl_one_pos fl_1_4_ge by (intro step32_ge) simp_all
    then have tb: "?t < 2 ^ 69" using bd by linarith
    have "x - 1 + 1 < w" using x x1 by simp
    then have "D (x - 1 + 1) (y + 1) \<le> ?t + reach fl_one ?t" using B Fw _ _ tb
      by (intro right_bound [where w = w and h = h and F = F]) (use y in simp_all)
    then have "?p \<le> ?t + reach fl_one ?t" by (simp only: x1)
    also have "\<dots> \<le> ?q + reach fl_one ?q" using tq by (intro reach_step_mono) simp_all
    finally show ?thesis .
  qed
qed

text \<open>Towards the upper left neighbour.\<close>

lemma pow68: "(2::int) ^ 68 = 65536 * fl_one" by (simp add: fl_one_def)

lemma downright_bound:
  assumes B: "bwd_closed w h F D" and Fw: "fwd_closed w h F"
    and x: "x + 1 < w" and y: "y + 1 < h" and bd: "D x y < 2 ^ 68"
  shows "D (x + 1) (y + 1) \<le> D x y + reach fl_1_4 (D x y)"
proof -
  have xw: "x < w" using x by simp
  have yh: "y < h" using y by simp
  let ?q = "D x y" and ?p = "D (x + 1) (y + 1)"
  have q0: "0 \<le> ?q" using B xw yh by (rule closed_nonneg)
  have ps: "is_single ?p" using B x y by (rule bwd_closedD(1))
  have bd69: "?q < 2 ^ 69" using bd unfolding pow68 pow69 using fl_one_pos by linarith
  consider (a) "?q = F x y"
    | (b) "?q = step32 fl_one (D (x + 1) y)"
    | (c) "?q = step32 fl_one (D x (y + 1))"
    | (d) "?q = step32 fl_1_4 ?p"
    | (e) "0 < x" "?q = step32 fl_1_4 (D (x - 1) (y + 1))"
    using bwd_closedD(4) [OF B xw yh] by blast
  then show ?thesis
  proof cases
    case a
    have "?p \<le> F (x + 1) (y + 1)" using B x y by (rule bwd_closedD(3))
    also have "\<dots> \<le> step32 fl_1_4 (F x y)" using Fw x y by (rule fwd_closedD(3))
    also have "\<dots> = step32 fl_1_4 ?q" by (simp only: a)
    also have "\<dots> \<le> ?q + reach fl_1_4 ?q" using q0 fl_1_4_ge by (intro step_le_reach) simp_all
    finally show ?thesis .
  next
    case b
    let ?t = "D (x + 1) y"
    have ts: "is_single ?t" using B x yh by (rule bwd_closedD(1))
    have tq: "?t \<le> ?q" unfolding b using ts fl_one_pos by (intro step32_ge) simp_all
    then have tb: "?t < 2 ^ 69" using bd69 by linarith
    have "?p \<le> ?t + reach fl_one ?t" using B Fw x y tb by (rule down_bound)
    also have "\<dots> \<le> ?q + reach fl_1_4 ?q" using tq fl_1_4_ge by (intro reach_step_mono) simp_all
    finally show ?thesis .
  next
    case c
    let ?t = "D x (y + 1)"
    have ts: "is_single ?t" using B xw y by (rule bwd_closedD(1))
    have tq: "?t \<le> ?q" unfolding c using ts fl_one_pos by (intro step32_ge) simp_all
    then have tb: "?t < 2 ^ 69" using bd69 by linarith
    have "?p \<le> ?t + reach fl_one ?t" using B Fw x y tb by (rule right_bound)
    also have "\<dots> \<le> ?q + reach fl_1_4 ?q" using tq fl_1_4_ge by (intro reach_step_mono) simp_all
    finally show ?thesis .
  next
    case d
    have "?p \<le> step32 fl_1_4 ?p" using ps fl_one_pos fl_1_4_ge by (intro step32_ge) simp_all
    then have "?p \<le> ?q" by (simp only: d)
    then show ?thesis using reach_pos [of fl_1_4 ?q] fl_1_4_ge by linarith
  next
    case e
    let ?t = "D (x - 1) (y + 1)"
    let ?s = "D x (y + 1)"
    have x1: "x - 1 + 1 = x" using e(1) by simp
    have x1w: "x - 1 < w" using xw by simp
    have ts: "is_single ?t" using B x1w y by (rule bwd_closedD(1))
    have t0: "0 \<le> ?t" using B x1w y by (rule closed_nonneg)
    have tq: "?t \<le> ?q" unfolding e(2) using ts fl_one_pos fl_1_4_ge by (intro step32_ge) simp_all
    then have t68: "?t < 2 ^ 68" using bd by linarith
    then have tb: "?t < 2 ^ 69" unfolding pow68 pow69 using fl_one_pos by linarith
    have "x - 1 + 1 < w" using xw x1 by simp
    then have "D (x - 1 + 1) (y + 1) \<le> ?t + reach fl_one ?t" using B Fw _ _ tb
      by (intro right_bound [where w = w and h = h and F = F]) (use y in simp_all)
    then have s: "?s \<le> ?t + reach fl_one ?t" by (simp only: x1)
    have "128 * ulp32 ?t \<le> fl_one" using tb by (rule ulp32_bound69)
    then have "?s < 2 ^ 69" using s t68 reach_upper [of fl_one ?t] ulp32_pos [of ?t] fl_one_pos
      unfolding pow68 pow69 by linarith
    then have "?p \<le> ?s + reach fl_one ?s" using B Fw x _ by (intro right_bound [where w = w and h = h and F = F]) (use y in simp_all)
    also have "\<dots> \<le> step32 fl_1_4 ?t + reach fl_1_4 (step32 fl_1_4 ?t)" using t0 tb s by (rule two_reach_le_diag)
    finally show ?thesis by (simp only: e(2))
  qed
qed

subsection \<open>The values the passes leave\<close>

lemma relax_cases: "relax s j k b = b \<or> relax s j k b = to_double (rd s j fl_inf + k)"
  by (simp add: relax_def min_def)

lemma relax4:
  assumes b1: "b1 = (if c1 then relax s j1 k1 b0 else b0)"
    and b2: "b2 = (if c2 then relax s j2 k2 b1 else b1)"
    and b3: "b3 = (if c3 then relax s j3 k3 b2 else b2)"
    and b4: "b4 = (if c4 then relax s j4 k4 b3 else b3)"
  shows "to_float32 b4 \<le> to_float32 b0"
    and "c1 \<Longrightarrow> to_float32 b4 \<le> step32 k1 (rd s j1 fl_inf)"
    and "c2 \<Longrightarrow> to_float32 b4 \<le> step32 k2 (rd s j2 fl_inf)"
    and "c3 \<Longrightarrow> to_float32 b4 \<le> step32 k3 (rd s j3 fl_inf)"
    and "c4 \<Longrightarrow> to_float32 b4 \<le> step32 k4 (rd s j4 fl_inf)"
    and "to_float32 b4 = to_float32 b0 \<or>
         (c1 \<and> to_float32 b4 = step32 k1 (rd s j1 fl_inf)) \<or>
         (c2 \<and> to_float32 b4 = step32 k2 (rd s j2 fl_inf)) \<or>
         (c3 \<and> to_float32 b4 = step32 k3 (rd s j3 fl_inf)) \<or>
         (c4 \<and> to_float32 b4 = step32 k4 (rd s j4 fl_inf))"
proof -
  have l1: "b1 \<le> b0" unfolding b1 by (rule opt_relax_le)
  have l2: "b2 \<le> b1" unfolding b2 by (rule opt_relax_le)
  have l3: "b3 \<le> b2" unfolding b3 by (rule opt_relax_le)
  have l4: "b4 \<le> b3" unfolding b4 by (rule opt_relax_le)
  show "to_float32 b4 \<le> to_float32 b0" using l1 l2 l3 l4 by (intro to_float32_mono) linarith
  show "to_float32 b4 \<le> step32 k1 (rd s j1 fl_inf)" if c1
  proof -
    have "b1 \<le> to_double (rd s j1 fl_inf + k1)" unfolding b1 using that by (rule opt_relax_le_candidate)
    then show ?thesis unfolding step32_def using l2 l3 l4 by (intro to_float32_mono) linarith
  qed
  show "to_float32 b4 \<le> step32 k2 (rd s j2 fl_inf)" if c2
  proof -
    have "b2 \<le> to_double (rd s j2 fl_inf + k2)" unfolding b2 using that by (rule opt_relax_le_candidate)
    then show ?thesis unfolding step32_def using l3 l4 by (intro to_float32_mono) linarith
  qed
  show "to_float32 b4 \<le> step32 k3 (rd s j3 fl_inf)" if c3
  proof -
    have "b3 \<le> to_double (rd s j3 fl_inf + k3)" unfolding b3 using that by (rule opt_relax_le_candidate)
    then show ?thesis unfolding step32_def using l4 by (intro to_float32_mono) linarith
  qed
  show "to_float32 b4 \<le> step32 k4 (rd s j4 fl_inf)" if c4
  proof -
    have "b4 \<le> to_double (rd s j4 fl_inf + k4)" unfolding b4 using that by (rule opt_relax_le_candidate)
    then show ?thesis unfolding step32_def by (rule to_float32_mono)
  qed
  have e1: "b1 = b0 \<or> (c1 \<and> b1 = to_double (rd s j1 fl_inf + k1))"
    unfolding b1 using relax_cases [of s j1 k1 b0] by auto
  have e2: "b2 = b1 \<or> (c2 \<and> b2 = to_double (rd s j2 fl_inf + k2))"
    unfolding b2 using relax_cases [of s j2 k2 b1] by auto
  have e3: "b3 = b2 \<or> (c3 \<and> b3 = to_double (rd s j3 fl_inf + k3))"
    unfolding b3 using relax_cases [of s j3 k3 b2] by auto
  have e4: "b4 = b3 \<or> (c4 \<and> b4 = to_double (rd s j4 fl_inf + k4))"
    unfolding b4 using relax_cases [of s j4 k4 b3] by auto
  from e1 e2 e3 e4
  have "b4 = b0 \<or> (c1 \<and> b4 = to_double (rd s j1 fl_inf + k1)) \<or>
        (c2 \<and> b4 = to_double (rd s j2 fl_inf + k2)) \<or>
        (c3 \<and> b4 = to_double (rd s j3 fl_inf + k3)) \<or>
        (c4 \<and> b4 = to_double (rd s j4 fl_inf + k4))"
    by metis
  then show "to_float32 b4 = to_float32 b0 \<or>
         (c1 \<and> to_float32 b4 = step32 k1 (rd s j1 fl_inf)) \<or>
         (c2 \<and> to_float32 b4 = step32 k2 (rd s j2 fl_inf)) \<or>
         (c3 \<and> to_float32 b4 = step32 k3 (rd s j3 fl_inf)) \<or>
         (c4 \<and> to_float32 b4 = step32 k4 (rd s j4 fl_inf))"
    unfolding step32_def by metis
qed

lemma fwdPixel_value:
  assumes i: "y * w + x < length s"
  shows "fwdPixel w h y x s ! (y * w + x) \<le> to_float32 (rd s (y * w + x) fl_inf)"
    and "x > 0 \<Longrightarrow> fwdPixel w h y x s ! (y * w + x) \<le> step32 fl_one (rd s (y * w + x - 1) fl_inf)"
    and "y > 0 \<Longrightarrow> fwdPixel w h y x s ! (y * w + x) \<le> step32 fl_one (rd s (y * w + x - w) fl_inf)"
    and "x > 0 \<and> y > 0 \<Longrightarrow>
         fwdPixel w h y x s ! (y * w + x) \<le> step32 fl_1_4 (rd s (y * w + x - w - 1) fl_inf)"
    and "x + 1 < w \<and> y > 0 \<Longrightarrow>
         fwdPixel w h y x s ! (y * w + x) \<le> step32 fl_1_4 (rd s (y * w + x - w + 1) fl_inf)"
    and "fwdPixel w h y x s ! (y * w + x) = to_float32 (rd s (y * w + x) fl_inf) \<or>
         (x > 0 \<and> fwdPixel w h y x s ! (y * w + x) = step32 fl_one (rd s (y * w + x - 1) fl_inf)) \<or>
         (y > 0 \<and> fwdPixel w h y x s ! (y * w + x) = step32 fl_one (rd s (y * w + x - w) fl_inf)) \<or>
         (x > 0 \<and> y > 0 \<and>
            fwdPixel w h y x s ! (y * w + x) = step32 fl_1_4 (rd s (y * w + x - w - 1) fl_inf)) \<or>
         (x + 1 < w \<and> y > 0 \<and>
            fwdPixel w h y x s ! (y * w + x) = step32 fl_1_4 (rd s (y * w + x - w + 1) fl_inf))"
proof -
  let ?i = "y * w + x"
  let ?b0 = "rd s ?i fl_inf"
  let ?b1 = "if x > 0 then relax s (?i - 1) fl_one ?b0 else ?b0"
  let ?b2 = "if y > 0 then relax s (?i - w) fl_one ?b1 else ?b1"
  let ?b3 = "if x > 0 \<and> y > 0 then relax s (?i - w - 1) fl_1_4 ?b2 else ?b2"
  let ?b4 = "if x + 1 < w \<and> y > 0 then relax s (?i - w + 1) fl_1_4 ?b3 else ?b3"
  have "fwdPixel w h y x s = s[?i := to_float32 ?b4]"
    unfolding fwdPixel_def Let_def by (rule refl)
  then have eq: "fwdPixel w h y x s ! ?i = to_float32 ?b4" using i by simp
  note r = relax4 [where ?b1.0 = ?b1 and ?b2.0 = ?b2 and ?b3.0 = ?b3 and ?b4.0 = ?b4 and ?b0.0 = ?b0,
      OF refl refl refl refl]
  show "fwdPixel w h y x s ! ?i \<le> to_float32 (rd s ?i fl_inf)" unfolding eq by (rule r(1))
  show "x > 0 \<Longrightarrow> fwdPixel w h y x s ! ?i \<le> step32 fl_one (rd s (?i - 1) fl_inf)"
    using r(2) by (simp only: eq)
  show "y > 0 \<Longrightarrow> fwdPixel w h y x s ! ?i \<le> step32 fl_one (rd s (?i - w) fl_inf)"
    using r(3) by (simp only: eq)
  show "x > 0 \<and> y > 0 \<Longrightarrow> fwdPixel w h y x s ! ?i \<le> step32 fl_1_4 (rd s (?i - w - 1) fl_inf)"
    using r(4) by (simp only: eq)
  show "x + 1 < w \<and> y > 0 \<Longrightarrow> fwdPixel w h y x s ! ?i \<le> step32 fl_1_4 (rd s (?i - w + 1) fl_inf)"
    using r(5) by (simp only: eq)
  show "fwdPixel w h y x s ! ?i = to_float32 (rd s ?i fl_inf) \<or>
         (x > 0 \<and> fwdPixel w h y x s ! ?i = step32 fl_one (rd s (?i - 1) fl_inf)) \<or>
         (y > 0 \<and> fwdPixel w h y x s ! ?i = step32 fl_one (rd s (?i - w) fl_inf)) \<or>
         (x > 0 \<and> y > 0 \<and> fwdPixel w h y x s ! ?i = step32 fl_1_4 (rd s (?i - w - 1) fl_inf)) \<or>
         (x + 1 < w \<and> y > 0 \<and> fwdPixel w h y x s ! ?i = step32 fl_1_4 (rd s (?i - w + 1) fl_inf))"
    unfolding eq using r(6) unfolding conj_assoc .
qed

lemma bwdPixel_value:
  assumes i: "y * w + x < length s"
  shows "bwdPixel w h y x s ! (y * w + x) \<le> to_float32 (rd s (y * w + x) 0)"
    and "x + 1 < w \<Longrightarrow> bwdPixel w h y x s ! (y * w + x) \<le> step32 fl_one (rd s (y * w + x + 1) fl_inf)"
    and "y + 1 < h \<Longrightarrow> bwdPixel w h y x s ! (y * w + x) \<le> step32 fl_one (rd s (y * w + x + w) fl_inf)"
    and "x + 1 < w \<and> y + 1 < h \<Longrightarrow>
         bwdPixel w h y x s ! (y * w + x) \<le> step32 fl_1_4 (rd s (y * w + x + w + 1) fl_inf)"
    and "x > 0 \<and> y + 1 < h \<Longrightarrow>
         bwdPixel w h y x s ! (y * w + x) \<le> step32 fl_1_4 (rd s (y * w + x + w - 1) fl_inf)"
    and "bwdPixel w h y x s ! (y * w + x) = to_float32 (rd s (y * w + x) 0) \<or>
         (x + 1 < w \<and> bwdPixel w h y x s ! (y * w + x) = step32 fl_one (rd s (y * w + x + 1) fl_inf)) \<or>
         (y + 1 < h \<and> bwdPixel w h y x s ! (y * w + x) = step32 fl_one (rd s (y * w + x + w) fl_inf)) \<or>
         (x + 1 < w \<and> y + 1 < h \<and>
            bwdPixel w h y x s ! (y * w + x) = step32 fl_1_4 (rd s (y * w + x + w + 1) fl_inf)) \<or>
         (x > 0 \<and> y + 1 < h \<and>
            bwdPixel w h y x s ! (y * w + x) = step32 fl_1_4 (rd s (y * w + x + w - 1) fl_inf))"
proof -
  let ?i = "y * w + x"
  let ?b0 = "rd s ?i 0"
  let ?b1 = "if x + 1 < w then relax s (?i + 1) fl_one ?b0 else ?b0"
  let ?b2 = "if y + 1 < h then relax s (?i + w) fl_one ?b1 else ?b1"
  let ?b3 = "if x + 1 < w \<and> y + 1 < h then relax s (?i + w + 1) fl_1_4 ?b2 else ?b2"
  let ?b4 = "if x > 0 \<and> y + 1 < h then relax s (?i + w - 1) fl_1_4 ?b3 else ?b3"
  have "bwdPixel w h y x s = s[?i := to_float32 ?b4]"
    unfolding bwdPixel_def Let_def by (rule refl)
  then have eq: "bwdPixel w h y x s ! ?i = to_float32 ?b4" using i by simp
  note r = relax4 [where ?b1.0 = ?b1 and ?b2.0 = ?b2 and ?b3.0 = ?b3 and ?b4.0 = ?b4 and ?b0.0 = ?b0,
      OF refl refl refl refl]
  show "bwdPixel w h y x s ! ?i \<le> to_float32 (rd s ?i 0)" unfolding eq by (rule r(1))
  show "x + 1 < w \<Longrightarrow> bwdPixel w h y x s ! ?i \<le> step32 fl_one (rd s (?i + 1) fl_inf)"
    using r(2) by (simp only: eq)
  show "y + 1 < h \<Longrightarrow> bwdPixel w h y x s ! ?i \<le> step32 fl_one (rd s (?i + w) fl_inf)"
    using r(3) by (simp only: eq)
  show "x + 1 < w \<and> y + 1 < h \<Longrightarrow> bwdPixel w h y x s ! ?i \<le> step32 fl_1_4 (rd s (?i + w + 1) fl_inf)"
    using r(4) by (simp only: eq)
  show "x > 0 \<and> y + 1 < h \<Longrightarrow> bwdPixel w h y x s ! ?i \<le> step32 fl_1_4 (rd s (?i + w - 1) fl_inf)"
    using r(5) by (simp only: eq)
  show "bwdPixel w h y x s ! ?i = to_float32 (rd s ?i 0) \<or>
         (x + 1 < w \<and> bwdPixel w h y x s ! ?i = step32 fl_one (rd s (?i + 1) fl_inf)) \<or>
         (y + 1 < h \<and> bwdPixel w h y x s ! ?i = step32 fl_one (rd s (?i + w) fl_inf)) \<or>
         (x + 1 < w \<and> y + 1 < h \<and> bwdPixel w h y x s ! ?i = step32 fl_1_4 (rd s (?i + w + 1) fl_inf)) \<or>
         (x > 0 \<and> y + 1 < h \<and> bwdPixel w h y x s ! ?i = step32 fl_1_4 (rd s (?i + w - 1) fl_inf))"
    unfolding eq using r(6) unfolding conj_assoc .
qed

lemma fwdPixel_length: "length (fwdPixel w h y x s) = length s"
  by (simp add: fwdPixel_def Let_def)

lemma fwdPixel_frame: "j \<noteq> y * w + x \<Longrightarrow> fwdPixel w h y x s ! j = s ! j"
  by (simp add: fwdPixel_def Let_def)

lemma fwdPass_flat:
  "fwdPass w h s = fold (\<lambda>i. fwdPixel w h (i div w) (i mod w)) [0..<h * w] s"
  by (simp add: fwdPass_def raster_fold)

lemma scan_up_before:
  assumes len: "\<And>i s. length (g i s) = length s"
    and frame: "\<And>i j s. j \<noteq> i \<Longrightarrow> g i s ! j = s ! j"
    and i: "i \<le> n"
  shows "m < i \<Longrightarrow> fold g [0..<i] s ! m = fold g [0..<n] s ! m"
    and "i \<le> m \<Longrightarrow> fold g [0..<i] s ! m = s ! m"
proof -
  have "[0..<n] = [0..<i] @ [i..<n]"
    using i by (metis le_add_diff_inverse upt_add_eq_append zero_le)
  then have D: "fold g [0..<n] s = fold g [i..<n] (fold g [0..<i] s)" by simp
  show "fold g [0..<i] s ! m = fold g [0..<n] s ! m" if "m < i"
    unfolding D using scan_frame [OF len frame, where xs = "[i..<n]" and j = m] that by simp
  show "fold g [0..<i] s ! m = s ! m" if "i \<le> m"
    using scan_frame [OF len frame, where xs = "[0..<i]" and j = m] that by simp
qed

lemma scan_down_before:
  assumes len: "\<And>i s. length (g i s) = length s"
    and frame: "\<And>i j s. j \<noteq> i \<Longrightarrow> g i s ! j = s ! j"
  shows "m \<le> i \<Longrightarrow> fold g (rev [Suc i..<n]) s ! m = s ! m"
  using scan_frame [OF len frame, where xs = "rev [Suc i..<n]" and j = m] by simp

lemma fwdPass_length: "length (fwdPass w h s) = length s"
proof -
  have "length (fold (\<lambda>i. fwdPixel w h (i div w) (i mod w)) xs s) = length s" for xs
    by (induction xs arbitrary: s) (simp_all add: fwdPixel_length)
  then show ?thesis by (simp only: fwdPass_flat)
qed

lemma bwdPass_length: "length (bwdPass w h s) = length s"
proof -
  have "length (fold (\<lambda>i. bwdPixel w h (i div w) (i mod w)) xs s) = length s" for xs
    by (induction xs arbitrary: s) (simp_all add: bwdPixel_length)
  then show ?thesis by (simp only: bwdPass_flat)
qed

lemma fwdPass_state:
  assumes "x < w" "y < h" "length s = h * w"
  shows "\<exists>t. length t = h * w \<and>
             fwdPass w h s ! (y * w + x) = fwdPixel w h y x t ! (y * w + x) \<and>
             (\<forall>m<y * w + x. t ! m = fwdPass w h s ! m) \<and> t ! (y * w + x) = s ! (y * w + x)"
proof -
  let ?g = "\<lambda>i. fwdPixel w h (i div w) (i mod w)"
  let ?i = "y * w + x"
  have len: "\<And>i s. length (?g i s) = length s" by (simp add: fwdPixel_length)
  have frame: "\<And>i j s. j \<noteq> i \<Longrightarrow> ?g i s ! j = s ! j"
  proof -
    fix i j :: nat and s :: "int list"
    assume "j \<noteq> i"
    moreover have "i div w * w + i mod w = i" by simp
    ultimately show "?g i s ! j = s ! j" by (simp add: fwdPixel_frame)
  qed
  have lt: "?i < h * w" using assms(1,2) by (rule pixel_index)
  then have le: "?i \<le> h * w" by simp
  let ?t = "fold ?g [0..<?i] s"
  have xy: "?i div w = y" "?i mod w = x" using assms(1) by simp_all
  have "fold ?g [0..<h * w] s ! ?i = ?g ?i ?t ! ?i" by (rule scan_up_final [OF len frame lt])
  then have 1: "fwdPass w h s ! ?i = fwdPixel w h y x ?t ! ?i" by (simp only: fwdPass_flat xy)
  have 2: "length ?t = h * w"
    using scan_frame [OF len frame, where xs = "[0..<?i]" and s = s] assms(3) by simp
  have 3: "\<forall>m<?i. ?t ! m = fwdPass w h s ! m"
    unfolding fwdPass_flat using scan_up_before(1) [where g = ?g, OF len frame le] by blast
  have 4: "?t ! ?i = s ! ?i" using scan_up_before(2) [where g = ?g and m = ?i, OF len frame le] by simp
  from 1 2 3 4 show ?thesis by blast
qed

lemma bwdPass_state:
  assumes "x < w" "y < h" "length s = h * w"
  shows "\<exists>t. length t = h * w \<and>
             bwdPass w h s ! (y * w + x) = bwdPixel w h y x t ! (y * w + x) \<and>
             (\<forall>m>y * w + x. t ! m = bwdPass w h s ! m) \<and> t ! (y * w + x) = s ! (y * w + x)"
proof -
  let ?g = "\<lambda>i. bwdPixel w h (i div w) (i mod w)"
  let ?i = "y * w + x"
  have len: "\<And>i s. length (?g i s) = length s" by (simp add: bwdPixel_length)
  have frame: "\<And>i j s. j \<noteq> i \<Longrightarrow> ?g i s ! j = s ! j"
  proof -
    fix i j :: nat and s :: "int list"
    assume "j \<noteq> i"
    moreover have "i div w * w + i mod w = i" by simp
    ultimately show "?g i s ! j = s ! j" by (simp add: bwdPixel_frame)
  qed
  have lt: "?i < h * w" using assms(1,2) by (rule pixel_index)
  let ?t = "fold ?g (rev [Suc ?i..<h * w]) s"
  have xy: "?i div w = y" "?i mod w = x" using assms(1) by simp_all
  have fin: "fold ?g (rev [0..<h * w]) s ! ?i = ?g ?i ?t ! ?i \<and>
             (\<forall>m>?i. ?t ! m = fold ?g (rev [0..<h * w]) s ! m)"
    by (rule scan_down_final [OF len frame lt])
  have 2: "length ?t = h * w"
    using scan_frame [OF len frame, where xs = "rev [Suc ?i..<h * w]" and s = s] assms(3) by simp
  have 1: "bwdPass w h s ! ?i = bwdPixel w h y x ?t ! ?i"
    using fin by (simp only: bwdPass_flat xy)
  have 3: "\<forall>m>?i. ?t ! m = bwdPass w h s ! m"
    unfolding bwdPass_flat using fin by blast
  have 4: "?t ! ?i = s ! ?i" using scan_down_before [where g = ?g and m = ?i and i = ?i, OF len frame] by simp
  from 1 2 3 4 show ?thesis by blast
qed

lemma bitlen_fl_inf: "bitlen fl_inf = 82"
proof -
  have "(2::int) ^ 81 \<le> fl_inf" "fl_inf < 2 ^ Suc 81" by (simp_all add: fl_inf_def)
  then have "bitlen fl_inf = Suc 81" by (rule bitlen_eq)
  then show ?thesis by simp
qed

lemma single_inf: "to_float32 fl_inf = fl_inf"
proof -
  have "fl_inf = 2 ^ 58 * 15625000" by (simp add: fl_inf_def)
  then have "2 ^ 58 dvd fl_inf" by (rule dvdI)
  then have "2 ^ (bitlen fl_inf - 24) dvd fl_inf" by (simp only: bitlen_fl_inf) simp
  then show ?thesis unfolding to_float32_def by (rule round_sig_exact)
qed

lemma initDist_values:
  assumes "i < w * h"
  shows "initDist src w h ! i = 0 \<or> initDist src w h ! i = fl_inf"
  using assms by (simp add: initDist_def to_float32_0 single_inf)

lemma initDist_length: "length (initDist src w h) = h * w"
  by (simp add: initDist_def mult.commute)

text \<open>The forward pass leaves single precision numbers that no step from an earlier neighbour undercuts.\<close>

lemma fwdPass_pixel:
  fixes src w h
  defines "F \<equiv> fwdPass w h (initDist src w h)"
  assumes x: "x < w" and y: "y < h"
  shows "is_single (pixel w F x y)"
    and "x > 0 \<Longrightarrow> pixel w F x y \<le> step32 fl_one (pixel w F (x - 1) y)"
    and "y > 0 \<Longrightarrow> pixel w F x y \<le> step32 fl_one (pixel w F x (y - 1))"
    and "x > 0 \<Longrightarrow> y > 0 \<Longrightarrow> pixel w F x y \<le> step32 fl_1_4 (pixel w F (x - 1) (y - 1))"
    and "x + 1 < w \<Longrightarrow> y > 0 \<Longrightarrow> pixel w F x y \<le> step32 fl_1_4 (pixel w F (x + 1) (y - 1))"
    and "pixel w F x y = 0 \<or> pixel w F x y = fl_inf \<or>
         (0 < x \<and> pixel w F x y = step32 fl_one (pixel w F (x - 1) y)) \<or>
         (0 < y \<and> pixel w F x y = step32 fl_one (pixel w F x (y - 1))) \<or>
         (0 < x \<and> 0 < y \<and> pixel w F x y = step32 fl_1_4 (pixel w F (x - 1) (y - 1))) \<or>
         (x + 1 < w \<and> 0 < y \<and> pixel w F x y = step32 fl_1_4 (pixel w F (x + 1) (y - 1)))"
proof -
  let ?I = "initDist src w h"
  let ?i = "y * w + x"
  have lt: "?i < h * w" using x y by (rule pixel_index)
  obtain t where t: "length t = h * w" "F ! ?i = fwdPixel w h y x t ! ?i"
      "\<forall>m<?i. t ! m = F ! m" "t ! ?i = ?I ! ?i"
    unfolding F_def using fwdPass_state [OF x y initDist_length] by blast
  have it: "?i < length t" using t(1) lt by simp
  have rdt: "rd t m fl_inf = F ! m" if "m < ?i" for m
    using that t(1,3) lt by (simp add: rd_def)
  have rdi: "rd t ?i fl_inf = ?I ! ?i" using it t(4) by (simp add: rd_def)
  have i0: "?I ! ?i = 0 \<or> ?I ! ?i = fl_inf" using lt by (intro initDist_values) (simp add: mult.commute)
  have tfi: "to_float32 (rd t ?i fl_inf) = ?I ! ?i" using i0 rdi by (auto simp add: to_float32_0 single_inf)
  note v = fwdPixel_value [OF it, of h, folded t(2)]
  have yw: "y * w = (y - 1) * w + w" if "y > 0" using that by (cases y) simp_all
  have l: "?i - 1 = y * w + (x - 1)" "?i - 1 < ?i" if "x > 0" using that by simp_all
  have u: "?i - w = (y - 1) * w + x" "?i - w < ?i" if "y > 0"
    using yw [OF that] x by simp_all
  have ul: "?i - w - 1 = (y - 1) * w + (x - 1)" "?i - w - 1 < ?i" if "x > 0" "y > 0"
    using yw [OF that(2)] that(1) x by simp_all
  have ur: "?i - w + 1 = (y - 1) * w + (x + 1)" "?i - w + 1 < ?i" if "x + 1 < w" "y > 0"
    using yw [OF that(2)] that(1) by simp_all
  have L: "rd t (?i - 1) fl_inf = pixel w F (x - 1) y" if "x > 0"
    using rdt [OF l(2) [OF that]] l(1) [OF that] by (simp add: pixel_def)
  have U: "rd t (?i - w) fl_inf = pixel w F x (y - 1)" if "y > 0"
    using rdt [OF u(2) [OF that]] u(1) [OF that] by (simp add: pixel_def)
  have UL: "rd t (?i - w - 1) fl_inf = pixel w F (x - 1) (y - 1)" if "x > 0" "y > 0"
    using rdt [OF ul(2) [OF that]] ul(1) [OF that] by (simp add: pixel_def)
  have UR: "rd t (?i - w + 1) fl_inf = pixel w F (x + 1) (y - 1)" if "x + 1 < w" "y > 0"
    using rdt [OF ur(2) [OF that]] ur(1) [OF that] by (simp add: pixel_def)
  have P: "pixel w F x y = F ! ?i" by (simp add: pixel_def)
  show "x > 0 \<Longrightarrow> pixel w F x y \<le> step32 fl_one (pixel w F (x - 1) y)"
    using v(2) L by (simp add: P)
  show "y > 0 \<Longrightarrow> pixel w F x y \<le> step32 fl_one (pixel w F x (y - 1))"
    using v(3) U by (simp add: P)
  show "x > 0 \<Longrightarrow> y > 0 \<Longrightarrow> pixel w F x y \<le> step32 fl_1_4 (pixel w F (x - 1) (y - 1))"
    using v(4) UL by (simp add: P)
  show "x + 1 < w \<Longrightarrow> y > 0 \<Longrightarrow> pixel w F x y \<le> step32 fl_1_4 (pixel w F (x + 1) (y - 1))"
    using v(5) UR by (simp add: P)
  have c: "F ! ?i = ?I ! ?i \<or>
         (0 < x \<and> F ! ?i = step32 fl_one (pixel w F (x - 1) y)) \<or>
         (0 < y \<and> F ! ?i = step32 fl_one (pixel w F x (y - 1))) \<or>
         (0 < x \<and> 0 < y \<and> F ! ?i = step32 fl_1_4 (pixel w F (x - 1) (y - 1))) \<or>
         (x + 1 < w \<and> 0 < y \<and> F ! ?i = step32 fl_1_4 (pixel w F (x + 1) (y - 1)))"
    using v(6) L U UL UR tfi by metis
  then show "pixel w F x y = 0 \<or> pixel w F x y = fl_inf \<or>
         (0 < x \<and> pixel w F x y = step32 fl_one (pixel w F (x - 1) y)) \<or>
         (0 < y \<and> pixel w F x y = step32 fl_one (pixel w F x (y - 1))) \<or>
         (0 < x \<and> 0 < y \<and> pixel w F x y = step32 fl_1_4 (pixel w F (x - 1) (y - 1))) \<or>
         (x + 1 < w \<and> 0 < y \<and> pixel w F x y = step32 fl_1_4 (pixel w F (x + 1) (y - 1)))"
    unfolding P using i0 by metis
  show "is_single (pixel w F x y)"
    unfolding P using c i0 step32_single to_float32_single [of 0] to_float32_single [of fl_inf]
    by (metis to_float32_0 single_inf)
qed

lemma bwdPass_pixel:
  fixes src w h
  defines "F \<equiv> fwdPass w h (initDist src w h)"
  defines "D \<equiv> distanceTransform src w h"
  assumes x: "x < w" and y: "y < h"
  shows "is_single (pixel w D x y)"
    and "pixel w D x y \<le> pixel w F x y"
    and "x + 1 < w \<Longrightarrow> pixel w D x y \<le> step32 fl_one (pixel w D (x + 1) y)"
    and "y + 1 < h \<Longrightarrow> pixel w D x y \<le> step32 fl_one (pixel w D x (y + 1))"
    and "x + 1 < w \<Longrightarrow> y + 1 < h \<Longrightarrow> pixel w D x y \<le> step32 fl_1_4 (pixel w D (x + 1) (y + 1))"
    and "x > 0 \<Longrightarrow> y + 1 < h \<Longrightarrow> pixel w D x y \<le> step32 fl_1_4 (pixel w D (x - 1) (y + 1))"
    and "pixel w D x y = pixel w F x y \<or>
         (x + 1 < w \<and> pixel w D x y = step32 fl_one (pixel w D (x + 1) y)) \<or>
         (y + 1 < h \<and> pixel w D x y = step32 fl_one (pixel w D x (y + 1))) \<or>
         (x + 1 < w \<and> y + 1 < h \<and> pixel w D x y = step32 fl_1_4 (pixel w D (x + 1) (y + 1))) \<or>
         (0 < x \<and> y + 1 < h \<and> pixel w D x y = step32 fl_1_4 (pixel w D (x - 1) (y + 1)))"
proof -
  let ?i = "y * w + x"
  have lt: "?i < h * w" using x y by (rule pixel_index)
  have lenF: "length F = h * w" unfolding F_def by (simp add: fwdPass_length initDist_length)
  have DF: "D = bwdPass w h F" by (simp add: D_def F_def distanceTransform_def)
  obtain t where t: "length t = h * w" "D ! ?i = bwdPixel w h y x t ! ?i"
      "\<forall>m>?i. t ! m = D ! m" "t ! ?i = F ! ?i"
    unfolding DF using bwdPass_state [OF x y lenF] by blast
  have it: "?i < length t" using t(1) lt by simp
  have rdt: "rd t m fl_inf = D ! m" if "?i < m" "m < h * w" for m
    using that t(1,3) by (simp add: rd_def)
  have Fs: "is_single (F ! ?i)"
    using fwdPass_pixel(1) [OF x y, where src = src] by (simp add: pixel_def F_def)
  have tfi: "to_float32 (rd t ?i 0) = F ! ?i" using it t(4) Fs by (simp add: rd_def is_single_def)
  note v = bwdPixel_value [OF it, of h, folded t(2)]
  have r: "?i + 1 = y * w + (x + 1)" "?i < ?i + 1" "?i + 1 < h * w" if "x + 1 < w"
    using pixel_index [OF that y] by simp_all
  have d: "?i + w = (y + 1) * w + x" "?i < ?i + w" "?i + w < h * w" if "y + 1 < h"
    using pixel_index [OF x that] x by (simp_all add: algebra_simps)
  have dr: "?i + w + 1 = (y + 1) * w + (x + 1)" "?i < ?i + w + 1" "?i + w + 1 < h * w"
    if "x + 1 < w" "y + 1 < h"
    using pixel_index [OF that] by (simp_all add: algebra_simps)
  have dl: "?i + w - 1 = (y + 1) * w + (x - 1)" "?i < ?i + w - 1" "?i + w - 1 < h * w"
    if "x > 0" "y + 1 < h"
  proof -
    have "x - 1 < w" using x by simp
    from pixel_index [OF this that(2)] that(1) x
    show "?i + w - 1 = (y + 1) * w + (x - 1)" "?i < ?i + w - 1" "?i + w - 1 < h * w"
      by (simp_all add: algebra_simps)
  qed
  have R: "rd t (?i + 1) fl_inf = pixel w D (x + 1) y" if "x + 1 < w"
    unfolding pixel_def r(1) [OF that, symmetric] by (rule rdt [OF r(2,3) [OF that]])
  have Dn: "rd t (?i + w) fl_inf = pixel w D x (y + 1)" if "y + 1 < h"
    unfolding pixel_def d(1) [OF that, symmetric] by (rule rdt [OF d(2,3) [OF that]])
  have DR: "rd t (?i + w + 1) fl_inf = pixel w D (x + 1) (y + 1)" if "x + 1 < w" "y + 1 < h"
    unfolding pixel_def dr(1) [OF that, symmetric] by (rule rdt [OF dr(2,3) [OF that]])
  have DL: "rd t (?i + w - 1) fl_inf = pixel w D (x - 1) (y + 1)" if "x > 0" "y + 1 < h"
    unfolding pixel_def dl(1) [OF that, symmetric] by (rule rdt [OF dl(2,3) [OF that]])
  have P: "pixel w D x y = D ! ?i" "pixel w F x y = F ! ?i" by (simp_all add: pixel_def)
  show "pixel w D x y \<le> pixel w F x y" using v(1) tfi by (simp add: P)
  show "x + 1 < w \<Longrightarrow> pixel w D x y \<le> step32 fl_one (pixel w D (x + 1) y)"
    using v(2) R by (simp add: P)
  show "y + 1 < h \<Longrightarrow> pixel w D x y \<le> step32 fl_one (pixel w D x (y + 1))"
    using v(3) Dn by (simp add: P)
  show "x + 1 < w \<Longrightarrow> y + 1 < h \<Longrightarrow> pixel w D x y \<le> step32 fl_1_4 (pixel w D (x + 1) (y + 1))"
    using v(4) DR by (simp add: P)
  show "x > 0 \<Longrightarrow> y + 1 < h \<Longrightarrow> pixel w D x y \<le> step32 fl_1_4 (pixel w D (x - 1) (y + 1))"
    using v(5) DL by (simp add: P)
  show c: "pixel w D x y = pixel w F x y \<or>
         (x + 1 < w \<and> pixel w D x y = step32 fl_one (pixel w D (x + 1) y)) \<or>
         (y + 1 < h \<and> pixel w D x y = step32 fl_one (pixel w D x (y + 1))) \<or>
         (x + 1 < w \<and> y + 1 < h \<and> pixel w D x y = step32 fl_1_4 (pixel w D (x + 1) (y + 1))) \<or>
         (0 < x \<and> y + 1 < h \<and> pixel w D x y = step32 fl_1_4 (pixel w D (x - 1) (y + 1)))"
    unfolding P using v(6) R Dn DR DL tfi by metis
  show "is_single (pixel w D x y)"
    using c Fs step32_single unfolding P by metis
qed

lemma transform_fwd_closed:
  "fwd_closed w h (pixel w (fwdPass w h (initDist src w h)))"
proof -
  let ?F = "pixel w (fwdPass w h (initDist src w h))"
  have 1: "?F (x + 1) y \<le> step32 fl_one (?F x y)" if "x + 1 < w \<and> y < h" for x y
    using fwdPass_pixel(2) [where x = "x + 1" and w = w and y = y and h = h and src = src] that by simp
  have 2: "?F x (y + 1) \<le> step32 fl_one (?F x y)" if "x < w \<and> y + 1 < h" for x y
    using fwdPass_pixel(3) [where x = x and w = w and y = "y + 1" and h = h and src = src] that by simp
  have 3: "?F (x + 1) (y + 1) \<le> step32 fl_1_4 (?F x y)" if "x + 1 < w \<and> y + 1 < h" for x y
    using fwdPass_pixel(4) [where x = "x + 1" and w = w and y = "y + 1" and h = h and src = src] that by simp
  have 4: "?F x (y + 1) \<le> step32 fl_1_4 (?F (x + 1) y)" if "x + 1 < w \<and> y + 1 < h" for x y
    using fwdPass_pixel(5) [where x = x and w = w and y = "y + 1" and h = h and src = src] that by simp
  have 5: "?F x y = 0 \<or> ?F x y = fl_inf \<or>
        (0 < x \<and> ?F x y = step32 fl_one (?F (x - 1) y)) \<or>
        (0 < y \<and> ?F x y = step32 fl_one (?F x (y - 1))) \<or>
        (0 < x \<and> 0 < y \<and> ?F x y = step32 fl_1_4 (?F (x - 1) (y - 1))) \<or>
        (x + 1 < w \<and> 0 < y \<and> ?F x y = step32 fl_1_4 (?F (x + 1) (y - 1)))" if "x < w \<and> y < h" for x y
    using fwdPass_pixel(6) [where x = x and w = w and y = y and h = h and src = src] that by simp
  show ?thesis unfolding fwd_closed_def using 1 2 3 4 5 by blast
qed

lemma transform_values:
  assumes "x < w" "y < h"
  shows "pixel w (distanceTransform src w h) x y = 0 \<or> fl_one \<le> pixel w (distanceTransform src w h) x y"
proof -
  have "y * w + x < w * h" using pixel_index [OF assms] by (simp add: mult.commute)
  then show ?thesis using distanceTransform_inv [of src w h] unfolding pixel_def by (auto split: if_splits)
qed

lemma transform_bwd_closed:
  "bwd_closed w h (pixel w (fwdPass w h (initDist src w h))) (pixel w (distanceTransform src w h))"
proof -
  let ?F = "pixel w (fwdPass w h (initDist src w h))"
  let ?D = "pixel w (distanceTransform src w h)"
  have a: "is_single (?D x y) \<and> (?D x y = 0 \<or> fl_one \<le> ?D x y) \<and> ?D x y \<le> ?F x y \<and>
        (?D x y = ?F x y \<or>
         (x + 1 < w \<and> ?D x y = step32 fl_one (?D (x + 1) y)) \<or>
         (y + 1 < h \<and> ?D x y = step32 fl_one (?D x (y + 1))) \<or>
         (x + 1 < w \<and> y + 1 < h \<and> ?D x y = step32 fl_1_4 (?D (x + 1) (y + 1))) \<or>
         (0 < x \<and> y + 1 < h \<and> ?D x y = step32 fl_1_4 (?D (x - 1) (y + 1))))"
    if "x < w \<and> y < h" for x y
    using bwdPass_pixel(1,2,7) [where x = x and w = w and y = y and h = h and src = src] transform_values [where x = x and w = w and y = y and h = h and src = src] that by simp
  have 1: "?D x y \<le> step32 fl_one (?D (x + 1) y)" if "x + 1 < w \<and> y < h" for x y
    using bwdPass_pixel(3) [where x = x and w = w and y = y and h = h and src = src] that by simp
  have 2: "?D x y \<le> step32 fl_one (?D x (y + 1))" if "x < w \<and> y + 1 < h" for x y
    using bwdPass_pixel(4) [where x = x and w = w and y = y and h = h and src = src] that by simp
  have 3: "?D x y \<le> step32 fl_1_4 (?D (x + 1) (y + 1))" if "x + 1 < w \<and> y + 1 < h" for x y
    using bwdPass_pixel(5) [where x = x and w = w and y = y and h = h and src = src] that by simp
  have 4: "?D (x + 1) y \<le> step32 fl_1_4 (?D x (y + 1))" if "x + 1 < w \<and> y + 1 < h" for x y
    using bwdPass_pixel(6) [where x = "x + 1" and w = w and y = y and h = h and src = src] that by simp
  show ?thesis unfolding bwd_closed_def using a 1 2 3 4 by blast
qed

subsection \<open>The range of the values\<close>

lemma fl_1_4_tight: "50 * fl_1_4 \<le> 71 * fl_one" by (simp add: fl_one_def fl_1_4_def)

lemma step32_inf: assumes "0 \<le> c" "c \<le> 2 * fl_one" shows "step32 c fl_inf = fl_inf"
proof -
  have s: "is_single fl_inf" by (simp add: is_single_def single_inf)
  have lo: "fl_inf \<le> step32 c fl_inf" using s assms(1) by (rule step32_ge)
  let ?n = "fl_inf + 2 * fl_one"
  have bl: "bitlen ?n = Suc 81"
    by (rule bitlen_eq) (simp_all add: fl_inf_def fl_one_def)
  have "?n = 2 ^ 29 * 8388608016777216" by (simp add: fl_inf_def fl_one_def)
  then have "2 ^ 29 dvd ?n" by (rule dvdI)
  then have "2 ^ (bitlen ?n - 53) dvd ?n" by (simp only: bl) simp
  then have td: "to_double ?n = ?n" unfolding to_double_def by (rule round_sig_exact)
  have "to_float32 ?n = fl_inf"
    unfolding to_float32_def round_sig_def Let_def bl rne_def
    by (simp add: fl_inf_def fl_one_def)
  then have "step32 (2 * fl_one) fl_inf = fl_inf" by (simp add: step32_def td)
  moreover have "step32 c fl_inf \<le> step32 (2 * fl_one) fl_inf" using assms(2) by (intro step32_mono) simp_all
  ultimately show ?thesis using lo by linarith
qed

lemma step32_grow:
  assumes "0 \<le> v" "v < 2 ^ 69" "fl_one \<le> c" "c \<le> fl_1_4"
  shows "0 \<le> step32 c v" "2 * step32 c v \<le> 2 * v + 3 * fl_one"
proof -
  have pos: "0 < v + c" using assms(1,3) fl_one_pos by linarith
  have u: "128 * ulp32 v \<le> fl_one" using assms(2) by (rule ulp32_bound69)
  have u2: "ulp32 (v + c) \<le> 2 * ulp32 v"
    using assms(4) fl_1_4_upper fl_one_pos by (intro ulp32_near) linarith
  show "2 * step32 c v \<le> 2 * v + 3 * fl_one"
    using step32_upper [OF pos] u u2 assms(4) fl_1_4_tight fl_one_pos by linarith
  have "0 \<le> to_float32 0" by (simp add: to_float32_0)
  also have "\<dots> = step32 0 0" by (simp add: step32_def to_double_def round_sig_nonpos)
  also have "\<dots> \<le> step32 c v" using assms(1,3) fl_one_pos by (intro step32_mono) linarith+
  finally show "0 \<le> step32 c v" .
qed

text \<open>How far the values can grow in an image of at most 4096 by 4096 pixels.\<close>

lemma forward_range:
  assumes Fw: "fwd_closed w h F" and w: "w \<le> 4096" and h: "h \<le> 4096"
  shows "x < w \<Longrightarrow> y < h \<Longrightarrow>
         F x y = fl_inf \<or> (0 \<le> F x y \<and> 2 * F x y \<le> 3 * int (x + 2 * y) * fl_one)"
proof (induction "x + 2 * y" arbitrary: x y rule: less_induct)
  case less
  note x = \<open>x < w\<close> and y = \<open>y < h\<close>
  have small: "v < 2 ^ 69" if "2 * v \<le> 3 * int (x' + 2 * y') * fl_one" "x' < w" "y' < h" for v x' y'
  proof -
    have "int (x' + 2 * y') \<le> 12288" using that(2,3) w h by linarith
    then have "3 * int (x' + 2 * y') * fl_one \<le> 3 * 12288 * fl_one"
      using fl_one_pos by (intro mult_right_mono) simp_all
    then show ?thesis using that(1) fl_one_pos unfolding pow69 by linarith
  qed
  have step: "step32 c (F x' y') = fl_inf \<or>
              (0 \<le> step32 c (F x' y') \<and> 2 * step32 c (F x' y') \<le> 3 * int (x + 2 * y) * fl_one)"
    if "x' < w" "y' < h" "x' + 2 * y' < x + 2 * y" "fl_one \<le> c" "c \<le> fl_1_4" for x' y' c
  proof -
    from less.hyps [OF that(3,1,2)]
    consider "F x' y' = fl_inf" | "0 \<le> F x' y'" "2 * F x' y' \<le> 3 * int (x' + 2 * y') * fl_one" by blast
    then show ?thesis
    proof cases
      case 1
      then show ?thesis using step32_inf [of c] that(4,5) fl_1_4_upper fl_one_pos by simp
    next
      case 2
      have b: "F x' y' < 2 ^ 69" using 2(2) that(1,2) by (rule small)
      have "3 * int (x' + 2 * y') * fl_one + 3 * fl_one \<le> 3 * int (x + 2 * y) * fl_one"
      proof -
        have "int (x' + 2 * y') + 1 \<le> int (x + 2 * y)" using that(3) by linarith
        then have "(int (x' + 2 * y') + 1) * (3 * fl_one) \<le> int (x + 2 * y) * (3 * fl_one)"
          using fl_one_pos by (intro mult_right_mono) simp_all
        then show ?thesis by (simp add: algebra_simps)
      qed
      then show ?thesis using step32_grow [OF 2(1) b that(4,5)] 2(2) by linarith
    qed
  qed
  consider (z) "F x y = 0" | (i) "F x y = fl_inf"
    | (l) "0 < x" "F x y = step32 fl_one (F (x - 1) y)"
    | (u) "0 < y" "F x y = step32 fl_one (F x (y - 1))"
    | (ul) "0 < x" "0 < y" "F x y = step32 fl_1_4 (F (x - 1) (y - 1))"
    | (ur) "x + 1 < w" "0 < y" "F x y = step32 fl_1_4 (F (x + 1) (y - 1))"
    using fwd_closedD(5) [OF Fw x y] by blast
  then show ?case
  proof cases
    case z
    then show ?thesis using fl_one_pos by simp
  next
    case i
    then show ?thesis by simp
  next
    case l
    show ?thesis unfolding l(2) using x y l(1) fl_1_4_ge by (intro step) simp_all
  next
    case u
    show ?thesis unfolding u(2) using x y u(1) fl_1_4_ge by (intro step) simp_all
  next
    case ul
    show ?thesis unfolding ul(3) using x y ul(1,2) fl_1_4_ge by (intro step) simp_all
  next
    case ur
    show ?thesis unfolding ur(3) using x y ur(1,2) fl_1_4_ge by (intro step) simp_all
  qed
qed

lemma backward_range:
  assumes B: "bwd_closed w h F D" and Fw: "fwd_closed w h F" and w: "w \<le> 4096" and h: "h \<le> 4096"
  shows "x < w \<Longrightarrow> y < h \<Longrightarrow>
         D x y = fl_inf \<or>
         2 * D x y \<le> 3 * int (w + 2 * h + (w - x) + 2 * (h - y)) * fl_one"
proof (induction "(w - x) + 2 * (h - y)" arbitrary: x y rule: less_induct)
  case less
  note x = \<open>x < w\<close> and y = \<open>y < h\<close>
  let ?m = "\<lambda>x y. int (w + 2 * h + (w - x) + 2 * (h - y))"
  have small: "v < 2 ^ 69" if "2 * v \<le> 3 * ?m x' y' * fl_one" for v x' y'
  proof -
    have "?m x' y' \<le> 24576" using w h by linarith
    then have "3 * ?m x' y' * fl_one \<le> 3 * 24576 * fl_one"
      using fl_one_pos by (intro mult_right_mono) simp_all
    then show ?thesis using that(1) fl_one_pos unfolding pow69 by linarith
  qed
  have step: "step32 c (D x' y') = fl_inf \<or> 2 * step32 c (D x' y') \<le> 3 * ?m x y * fl_one"
    if "x' < w" "y' < h" "(w - x') + 2 * (h - y') < (w - x) + 2 * (h - y)" "fl_one \<le> c" "c \<le> fl_1_4"
    for x' y' c
  proof -
    from less.hyps [OF that(3,1,2)]
    consider "D x' y' = fl_inf" | "2 * D x' y' \<le> 3 * ?m x' y' * fl_one" by blast
    then show ?thesis
    proof cases
      case 1
      then show ?thesis using step32_inf [of c] that(4,5) fl_1_4_upper fl_one_pos by simp
    next
      case 2
      have b: "D x' y' < 2 ^ 69" using 2 by (rule small)
      have nn: "0 \<le> D x' y'" using B that(1,2) by (rule closed_nonneg)
      have "3 * ?m x' y' * fl_one + 3 * fl_one \<le> 3 * ?m x y * fl_one"
      proof -
        have "?m x' y' + 1 \<le> ?m x y" using that(3) by linarith
        then have "(?m x' y' + 1) * (3 * fl_one) \<le> ?m x y * (3 * fl_one)"
          using fl_one_pos by (intro mult_right_mono) simp_all
        then show ?thesis by (simp add: algebra_simps)
      qed
      then show ?thesis using step32_grow(2) [OF nn b that(4,5)] 2 by linarith
    qed
  qed
  consider (f) "D x y = F x y"
    | (r) "x + 1 < w" "D x y = step32 fl_one (D (x + 1) y)"
    | (d) "y + 1 < h" "D x y = step32 fl_one (D x (y + 1))"
    | (dr) "x + 1 < w" "y + 1 < h" "D x y = step32 fl_1_4 (D (x + 1) (y + 1))"
    | (dl) "0 < x" "y + 1 < h" "D x y = step32 fl_1_4 (D (x - 1) (y + 1))"
    using bwd_closedD(4) [OF B x y] by blast
  then show ?case
  proof cases
    case f
    from forward_range [OF Fw w h x y]
    consider "F x y = fl_inf" | "2 * F x y \<le> 3 * int (x + 2 * y) * fl_one" by blast
    then show ?thesis
    proof cases
      case 1
      then show ?thesis using f by simp
    next
      case 2
      have "int (x + 2 * y) \<le> ?m x y" using x y by linarith
      then have "int (x + 2 * y) * (3 * fl_one) \<le> ?m x y * (3 * fl_one)"
        using fl_one_pos by (intro mult_right_mono) simp_all
      then show ?thesis using 2 f by (simp add: algebra_simps)
    qed
  next
    case r
    show ?thesis unfolding r(2) using x y r(1) fl_1_4_ge by (intro step) simp_all
  next
    case d
    show ?thesis unfolding d(2) using x y d(1) fl_1_4_ge by (intro step) simp_all
  next
    case dr
    show ?thesis unfolding dr(3) using x y dr(1,2) fl_1_4_ge by (intro step) simp_all
  next
    case dl
    show ?thesis unfolding dl(3) using x y dl(1,2) fl_1_4_ge by (intro step) linarith+
  qed
qed

subsection \<open>Neighbouring pixels of the result\<close>

lemma reach_relative:
  assumes v: "v = 0 \<or> fl_one \<le> v" and c: "fl_one \<le> c" and a: "a \<le> v + reach c v"
  shows "a * 2 ^ 18 \<le> (v + c) * (2 ^ 18 + 1)"
proof -
  have u: "2 ^ 23 * ulp32 v \<le> v + c"
  proof (cases "v = 0")
    case True
    have "(2::int) ^ 23 * 2 ^ (53 - 24) = 2 ^ 52" by simp
    then show ?thesis using True c by (simp add: ulp32_def binade_zero fl_one_def)
  next
    case False
    with v have "fl_one \<le> v" by simp
    then show ?thesis using ulp32_value [of v] c fl_one_pos by linarith
  qed
  have "a \<le> v + c + 32 * ulp32 v" using a reach_upper [of c v] by linarith
  then have "a * 2 ^ 18 \<le> (v + c + 32 * ulp32 v) * 2 ^ 18" by (intro mult_right_mono) simp_all
  also have "\<dots> = (v + c) * 2 ^ 18 + 2 ^ 23 * ulp32 v" by (simp add: algebra_simps)
  also have "\<dots> \<le> (v + c) * 2 ^ 18 + (v + c)" using u by linarith
  also have "\<dots> = (v + c) * (2 ^ 18 + 1)" by (simp add: algebra_simps)
  finally show ?thesis .
qed

text \<open>Every direction at once.\<close>

lemma neighbour_bound:
  assumes B: "bwd_closed w h F D" and Fw: "fwd_closed w h F"
    and x: "x < w" and y: "y < h" and x': "x' < w" and y': "y' < h"
    and adj: "adjacent x y x' y'" and bd: "D x' y' < 2 ^ 68"
  shows "D x y \<le> D x' y' + reach (stepCost x y x' y') (D x' y')"
proof -
  let ?q = "D x' y'"
  have q0: "0 \<le> ?q" using B x' y' by (rule closed_nonneg)
  have bd69: "?q < 2 ^ 69" using bd fl_one_pos unfolding pow68 pow69 by linarith
  have s1: "step32 fl_one ?q \<le> ?q + reach fl_one ?q" using q0 fl_1_4_ge by (intro step_le_reach) simp_all
  have s2: "step32 fl_1_4 ?q \<le> ?q + reach fl_1_4 ?q" using q0 fl_1_4_ge by (intro step_le_reach) simp_all
  have xs: "x' = x + 1 \<or> x' = x \<or> x = x' + 1" using adj unfolding adjacent_def by linarith
  have ys: "y' = y + 1 \<or> y' = y \<or> y = y' + 1" using adj unfolding adjacent_def by linarith
  have ne: "x' \<noteq> x \<or> y' \<noteq> y" using adj unfolding adjacent_def by blast
  from xs ys ne consider
      (r) "x' = x + 1" "y' = y" | (l) "x = x' + 1" "y' = y"
    | (d) "x' = x" "y' = y + 1" | (u) "x' = x" "y = y' + 1"
    | (dr) "x' = x + 1" "y' = y + 1" | (ul) "x = x' + 1" "y = y' + 1"
    | (dl) "x = x' + 1" "y' = y + 1" | (ur) "x' = x + 1" "y = y' + 1"
    by blast
  then show ?thesis
  proof cases
    case r
    have "D x y \<le> step32 fl_one (D (x + 1) y)" using B _ y by (rule bwd_closedD(5)) (use x' r in simp)
    then show ?thesis using s1 r by (simp add: stepCost_def)
  next
    case l
    have "D (x' + 1) y' \<le> ?q + reach fl_one ?q" using B Fw _ y' bd69 by (rule right_bound) (use x l in simp)
    then show ?thesis using l by (simp add: stepCost_def)
  next
    case d
    have "D x y \<le> step32 fl_one (D x (y + 1))" using B x _ by (rule bwd_closedD(6)) (use y' d in simp)
    then show ?thesis using s1 d by (simp add: stepCost_def)
  next
    case u
    have "D x' (y' + 1) \<le> ?q + reach fl_one ?q" using B Fw x' _ bd69 by (rule down_bound) (use y u in simp)
    then show ?thesis using u by (simp add: stepCost_def)
  next
    case dr
    have "D x y \<le> step32 fl_1_4 (D (x + 1) (y + 1))" using B by (rule bwd_closedD(7)) (use x' y' dr in simp_all)
    then show ?thesis using s2 dr by (simp add: stepCost_def)
  next
    case ul
    have "D (x' + 1) (y' + 1) \<le> ?q + reach fl_1_4 ?q" using B Fw _ _ bd by (rule downright_bound) (use x y ul in simp_all)
    then show ?thesis using ul by (simp add: stepCost_def)
  next
    case dl
    have "D (x' + 1) y \<le> step32 fl_1_4 (D x' (y + 1))" using B by (rule bwd_closedD(8)) (use x y' dl in simp_all)
    then show ?thesis using s2 dl by (simp add: stepCost_def)
  next
    case ur
    have "D x (y' + 1) \<le> D (x + 1) y' + reach fl_1_4 (D (x + 1) y')"
      using B Fw by (rule downleft_bound) (use x' y bd69 ur in simp_all)
    then show ?thesis using ur by (simp add: stepCost_def)
  qed
qed

lemma stepCost_ge: "fl_one \<le> stepCost x y x' y'"
  by (simp add: stepCost_def fl_1_4_ge)

text \<open>
  C9, as the code has it. The output is 0 exactly on the set pixels and at least 1 on all
  others. The values are sums rounded to single precision, so the step bounds hold up to
  rounding: in an image of at most 4096 by 4096 pixels, the value of a pixel is at most
  \<open>1 + 2^-18\<close> times the sum of the value of any of its eight neighbours and the cost of the
  step between them, 1 within a row or a column and 1.4 along a diagonal.
\<close>

theorem distanceTransform_pixel:
  assumes "x < w" "y < h"
  shows "(distanceTransform src w h ! (y * w + x) = 0 \<longleftrightarrow> rd src (y * w + x) 0 > 0) \<and>
         (rd src (y * w + x) 0 = 0 \<longrightarrow> fl_one \<le> distanceTransform src w h ! (y * w + x)) \<and>
         (w \<le> 4096 \<and> h \<le> 4096 \<longrightarrow>
            (\<forall>x' y'. x' < w \<and> y' < h \<and> adjacent x y x' y' \<longrightarrow>
               distanceTransform src w h ! (y * w + x) * 2 ^ 18 \<le>
                 (distanceTransform src w h ! (y' * w + x') + stepCost x y x' y') * (2 ^ 18 + 1)))"
proof -
  let ?D = "distanceTransform src w h"
  let ?i = "y * w + x"
  have lt: "?i < h * w" using assms by (rule pixel_index)
  then have lt': "?i < w * h" by (simp add: mult.commute)
  have inv: "if rd src ?i 0 > 0 then ?D ! ?i = 0 else fl_one \<le> ?D ! ?i"
    using distanceTransform_inv [of src w h] lt' by blast
  have zero: "?D ! ?i = 0 \<longleftrightarrow> rd src ?i 0 > 0"
    using inv fl_one_pos by (auto split: if_splits)
  have pos: "rd src ?i 0 = 0 \<longrightarrow> fl_one \<le> ?D ! ?i" using inv by simp
  have step: "?D ! ?i * 2 ^ 18 \<le> (?D ! (y' * w + x') + stepCost x y x' y') * (2 ^ 18 + 1)"
    if sz: "w \<le> 4096" "h \<le> 4096" and n: "x' < w" "y' < h" "adjacent x y x' y'" for x' y'
  proof -
    let ?F = "pixel w (fwdPass w h (initDist src w h))"
    let ?P = "pixel w ?D"
    let ?c = "stepCost x y x' y'"
    have B: "bwd_closed w h ?F ?P" by (rule transform_bwd_closed)
    have Fw: "fwd_closed w h ?F" by (rule transform_fwd_closed)
    have range: "?P a b = fl_inf \<or> ?P a b < 2 ^ 68" if "a < w" "b < h" for a b
    proof -
      let ?m = "int (w + 2 * h + (w - a) + 2 * (h - b))"
      from backward_range [OF B Fw sz that]
      consider "?P a b = fl_inf" | "2 * ?P a b \<le> 3 * ?m * fl_one" by blast
      then show ?thesis
      proof cases
        case 1
        then show ?thesis by simp
      next
        case 2
        have "?m \<le> 24576" using sz by linarith
        then have "3 * ?m * fl_one \<le> 3 * 24576 * fl_one"
          using fl_one_pos by (intro mult_right_mono) simp_all
        then show ?thesis using 2 fl_one_pos unfolding pow68 by linarith
      qed
    qed
    have c: "fl_one \<le> ?c" by (rule stepCost_ge)
    have "?P x y * 2 ^ 18 \<le> (?P x' y' + ?c) * (2 ^ 18 + 1)"
    proof (cases "?P x' y' = fl_inf")
      case True
      have "(2::int) ^ 68 \<le> fl_inf" by (simp add: fl_inf_def)
      then have "?P x y \<le> fl_inf" using range [OF assms] by linarith
      then have "?P x y * 2 ^ 18 \<le> fl_inf * 2 ^ 18" by (intro mult_right_mono) simp_all
      also have "\<dots> \<le> (fl_inf + ?c) * 2 ^ 18"
        using c fl_one_pos by (intro mult_right_mono) simp_all
      also have "\<dots> \<le> (fl_inf + ?c) * (2 ^ 18 + 1)"
        using c fl_one_pos fl_inf_ge by (intro mult_left_mono) simp_all
      finally show ?thesis by (simp only: True)
    next
      case False
      then have bd: "?P x' y' < 2 ^ 68" using range [OF n(1,2)] by simp
      have "?P x y \<le> ?P x' y' + reach ?c (?P x' y')"
        using B Fw assms n bd by (rule neighbour_bound)
      then show ?thesis using bwd_closedD(2) [OF B n(1,2)] c by (intro reach_relative)
    qed
    then show ?thesis by (simp only: pixel_def)
  qed
  from zero pos step show ?thesis by blast
qed

subsection \<open>Thin-stroke warning\<close>

lemma strokeScan_opaque:
  assumes "i < length d" "rd alphaMask i 0 \<noteq> 0"
  shows "0 < snd (strokeScan alphaMask d) \<and>
         (\<exists>v. fst (strokeScan alphaMask d) = Some v \<and> v \<le> d ! i * 2)"
proof -
  let ?f = "strokeStep alphaMask d"
  have "\<forall>i<k. rd alphaMask i 0 \<noteq> 0 \<longrightarrow>
          0 < snd (fold ?f [0..<k] (None, 0)) \<and>
          (\<exists>v. fst (fold ?f [0..<k] (None, 0)) = Some v \<and> v \<le> d ! i * 2)"
    if "k \<le> length d" for k
    using that
  proof (induction k)
    case 0
    show ?case by simp
  next
    case (Suc k)
    let ?st = "fold ?f [0..<k] (None, 0)"
    have st: "fold ?f [0..<Suc k] (None, 0) = ?f k ?st" by simp
    have k: "k < length d" using Suc.prems by simp
    show ?case
    proof (intro allI impI)
      fix i assume i: "i < Suc k" and op: "rd alphaMask i 0 \<noteq> 0"
      show "0 < snd (fold ?f [0..<Suc k] (None, 0)) \<and>
            (\<exists>v. fst (fold ?f [0..<Suc k] (None, 0)) = Some v \<and> v \<le> d ! i * 2)"
      proof (cases "i = k")
        case True
        then show ?thesis using op k unfolding st
          by (cases "fst ?st") (auto simp add: strokeStep_def min_inf_def rd_def)
      next
        case False
        with i have "i < k" by simp
        with Suc op have ih: "0 < snd ?st \<and> (\<exists>v. fst ?st = Some v \<and> v \<le> d ! i * 2)" by simp
        then show ?thesis unfolding st
          by (auto simp add: strokeStep_def min_inf_def)
      qed
    qed
  qed
  from this [of "length d"] assms show ?thesis by (simp add: strokeScan_def)
qed

lemma strokeScan_none:
  assumes "\<forall>i<length d. rd alphaMask i 0 = 0"
  shows "strokeScan alphaMask d = (None, 0)"
proof -
  have "fold (strokeStep alphaMask d) [0..<k] (None, 0) = (None, 0)" if "k \<le> length d" for k
    using that assms by (induction k) (simp_all add: strokeStep_def)
  then show ?thesis by (simp add: strokeScan_def)
qed

lemma strokeScan_nonneg:
  assumes "\<forall>v\<in>set d. 0 \<le> v" "fst (strokeScan alphaMask d) = Some v"
  shows "0 \<le> v"
proof -
  let ?P = "\<lambda>st :: int option \<times> nat. \<forall>v. fst st = Some v \<longrightarrow> 0 \<le> v"
  have step: "?P (strokeStep alphaMask d i st)" if "?P st" for i st
    using that rd_nonneg [OF assms(1), of 0 i]
    by (cases "fst st") (auto simp add: strokeStep_def min_inf_def)
  have "?P (fold (strokeStep alphaMask d) [0..<length d] (None, 0))"
    by (rule fold_invariant [where P = ?P]) (use step in simp_all)
  then show ?thesis using assms(2) by (simp add: strokeScan_def)
qed

lemma distanceTransform_nonneg: "\<forall>v\<in>set (distanceTransform src w h). 0 \<le> v"
proof
  fix v assume "v \<in> set (distanceTransform src w h)"
  then obtain i where "i < w * h" "distanceTransform src w h ! i = v"
    using distanceTransform_inv [of src w h] by (auto simp add: in_set_conv_nth)
  then show "0 \<le> v"
    using distanceTransform_inv [of src w h] fl_one_pos by (auto split: if_splits)
qed

lemma thin_neq: "thinWarning \<noteq> denseWarning" "thinWarning \<noteq> reducedWarning m"
  by (simp_all add: thinWarning_def denseWarning_def reducedWarning_def)

lemma thinWarning_iff:
  "thinWarning \<in> set (computeWarnings alphaMask w h t e mc ps) \<longleftrightarrow>
     (\<exists>i<w * h. rd alphaMask i 0 \<noteq> 0) \<and> 0 < t"
proof -
  let ?D = "distanceTransform alphaMask w h"
  have len: "length ?D = w * h" using distanceTransform_inv [of alphaMask w h] by simp
  have mem: "thinWarning \<in> set (computeWarnings alphaMask w h t e mc ps) \<longleftrightarrow>
        0 < snd (strokeScan alphaMask ?D) \<and>
        less_inf (fst (strokeScan alphaMask ?D)) (int t * fl_one)"
    using thin_neq
    by (auto simp add: computeWarnings_def Let_def split_beta split: option.splits)
  show ?thesis
  proof (cases "\<exists>i<w * h. rd alphaMask i 0 \<noteq> 0")
    case False
    then have "strokeScan alphaMask ?D = (None, 0)" using len by (intro strokeScan_none) simp
    then show ?thesis using False mem by simp
  next
    case True
    then obtain i where i: "i < w * h" "rd alphaMask i 0 \<noteq> 0" by blast
    then have z: "?D ! i = 0" using distanceTransform_inv [of alphaMask w h] by auto
    obtain v where v: "0 < snd (strokeScan alphaMask ?D)"
        "fst (strokeScan alphaMask ?D) = Some v" "v \<le> ?D ! i * 2"
      using strokeScan_opaque [of i ?D alphaMask] i len by auto
    have "less_inf (fst (strokeScan alphaMask ?D)) (int t * fl_one) \<longleftrightarrow> 0 < t"
    proof
      assume "0 < t"
      then have "0 < int t * fl_one" using fl_one_pos by simp
      then show "less_inf (fst (strokeScan alphaMask ?D)) (int t * fl_one)"
        using v z by (simp add: less_inf_def)
    next
      assume l: "less_inf (fst (strokeScan alphaMask ?D)) (int t * fl_one)"
      show "0 < t"
      proof (rule ccontr)
        assume "\<not> 0 < t"
        then have "t = 0" by simp
        with l v have "v < 0" by (simp add: less_inf_def)
        then show False
          using strokeScan_nonneg [OF distanceTransform_nonneg v(2)] by simp
      qed
    qed
    then show ?thesis using True mem v by simp
  qed
qed

subsection \<open>The transform of a corner pixel, evaluated\<close>

lemma bitlen_numeral: "bitlen (numeral k) = Suc (bitlen (numeral k div 2))"
  by (subst bitlen.simps) simp

lemma bitlen_0: "bitlen 0 = 0"
  by (simp add: bitlen.simps)

lemma bitlen_1: "bitlen 1 = 1"
  by (simp add: bitlen.simps)

lemmas fl_eval = to_double_def to_float32_def round_sig_def rne_def bitlen_numeral bitlen_0 bitlen_1
  fl_one_def fl_1_4_def fl_inf_def Let_def relax_def rd_def

lemma fwdPixel_eval:
  "fwdPixel w h y x dst =
     dst[y * w + x := to_float32
       ((if x + 1 < w \<and> y > 0 then relax dst (y * w + x - w + 1) fl_1_4 else id)
        ((if x > 0 \<and> y > 0 then relax dst (y * w + x - w - 1) fl_1_4 else id)
         ((if y > 0 then relax dst (y * w + x - w) fl_one else id)
          ((if x > 0 then relax dst (y * w + x - 1) fl_one else id)
           (rd dst (y * w + x) fl_inf)))))]"
  by (simp add: fwdPixel_def Let_def)

lemma bwdPixel_eval:
  "bwdPixel w h y x dst =
     dst[y * w + x := to_float32
       ((if x > 0 \<and> y + 1 < h then relax dst (y * w + x + w - 1) fl_1_4 else id)
        ((if x + 1 < w \<and> y + 1 < h then relax dst (y * w + x + w + 1) fl_1_4 else id)
         ((if y + 1 < h then relax dst (y * w + x + w) fl_one else id)
          ((if x + 1 < w then relax dst (y * w + x + 1) fl_one else id)
           (rd dst (y * w + x) 0)))))]"
  by (simp add: bwdPixel_def Let_def)

lemma upt_2: "[0..<2] = [0, 1]"
  by code_simp

lemma upt_3: "[0..<3] = [0, 1, 2]"
  by code_simp

lemma upt_4: "[0..<4] = [0, 1, 2, 3]"
  by code_simp

lemma upt_6: "[0..<6] = [0, 1, 2, 3, 4, 5]"
  by code_simp

lemma corner_init:
  "initDist [255, 0, 0, 0, 0, 0] 3 2 =
     [0, 4503599627370496000000000, 4503599627370496000000000,
      4503599627370496000000000, 4503599627370496000000000, 4503599627370496000000000]"
  apply (simp only: initDist_def upt_6 mult_numeral_left_semiring_numeral list.map)
  apply (simp add: upt_6 fl_eval)
  done

lemma corner_fwd:
  "fwdPass 3 2 [0, 4503599627370496000000000, 4503599627370496000000000,
      4503599627370496000000000, 4503599627370496000000000, 4503599627370496000000000] =
     [0, 4503599627370496, 9007199254740992, 4503599627370496, 6305039370944512,
      10808639535185920]"
  apply (simp only: fwdPass_def upt_2 upt_3 fold_simps o_apply)
  apply (simp add: fwdPixel_eval fl_eval)
  done

lemma corner_bwd:
  "bwdPass 3 2 [0, 4503599627370496, 9007199254740992, 4503599627370496, 6305039370944512,
      10808639535185920] =
     [0, 4503599627370496, 9007199254740992, 4503599627370496, 6305039370944512,
      10808639535185920]"
  apply (simp only: bwdPass_def upt_2 upt_3 rev.simps append.simps fold_simps o_apply)
  apply (simp add: bwdPixel_eval fl_eval)
  done

lemma corner_transform:
  "distanceTransform [255, 0, 0, 0, 0, 0] 3 2 =
     [0, 4503599627370496, 9007199254740992, 4503599627370496, 6305039370944512,
      10808639535185920]"
  by (simp only: distanceTransform_def corner_init corner_fwd corner_bwd)

text \<open>
  In the 3 by 2 image whose only set pixel is the top-left one, the pixels \<open>(1, 1)\<close> and
  \<open>(2, 1)\<close> are neighbours in a row and their distances, \<open>float32(1.4)\<close> and
  \<open>float32(float32(1.4) + 1)\<close>, differ by more than 1.
\<close>

theorem distanceTransform_step_exceeds_one:
  "fl_one < distanceTransform [255, 0, 0, 0, 0, 0] 3 2 ! (1 * 3 + 2) -
            distanceTransform [255, 0, 0, 0, 0, 0] 3 2 ! (1 * 3 + 1)"
  by (simp add: corner_transform fl_one_def)

theorem distanceTransform_pixel_witness:
  "(2::nat) < 3 \<and> (1::nat) < 2 \<and> (3::nat) \<le> 4096 \<and> (2::nat) \<le> 4096 \<and>
   (1::nat) < 3 \<and> adjacent 2 1 1 1 \<and>
   rd [255, 0, 0, 0, 0, 0 :: nat] (1 * 3 + 2) 0 = 0 \<and>
   distanceTransform [255, 0, 0, 0, 0, 0] 3 2 ! (1 * 3 + 2) \<noteq> 0 \<and>
   fl_one \<le> distanceTransform [255, 0, 0, 0, 0, 0] 3 2 ! (1 * 3 + 2) \<and>
   distanceTransform [255, 0, 0, 0, 0, 0] 3 2 ! (1 * 3 + 2) * 2 ^ 18 \<le>
     (distanceTransform [255, 0, 0, 0, 0, 0] 3 2 ! (1 * 3 + 1) + stepCost 2 1 1 1) * (2 ^ 18 + 1)"
proof -
  have a: "adjacent 2 1 1 1" by (simp add: adjacent_def)
  have r: "rd [255, 0, 0, 0, 0, 0 :: nat] (1 * 3 + 2) 0 = 0" by (simp add: rd_def)
  have xy: "(2::nat) < 3" "(1::nat) < 2" by simp_all
  note t = distanceTransform_pixel [OF xy, of "[255, 0, 0, 0, 0, 0]"]
  from t r have z: "distanceTransform [255, 0, 0, 0, 0, 0] 3 2 ! (1 * 3 + 2) \<noteq> 0"
    and o: "fl_one \<le> distanceTransform [255, 0, 0, 0, 0, 0] 3 2 ! (1 * 3 + 2)"
    by simp_all
  from t have "\<forall>x' y'. x' < 3 \<and> y' < 2 \<and> adjacent 2 1 x' y' \<longrightarrow>
      distanceTransform [255, 0, 0, 0, 0, 0] 3 2 ! (1 * 3 + 2) * 2 ^ 18 \<le>
        (distanceTransform [255, 0, 0, 0, 0, 0] 3 2 ! (y' * 3 + x') + stepCost 2 1 x' y') * (2 ^ 18 + 1)"
    by simp
  then have "distanceTransform [255, 0, 0, 0, 0, 0] 3 2 ! (1 * 3 + 2) * 2 ^ 18 \<le>
        (distanceTransform [255, 0, 0, 0, 0, 0] 3 2 ! (1 * 3 + 1) + stepCost 2 1 1 1) * (2 ^ 18 + 1)"
    using a by (elim allE [of _ 1] allE [of _ 1]) simp
  with a r z o show ?thesis by simp
qed

lemma upt_12: "[0..<12] = [0, 1, 2, 3, 4, 5, 6, 7, 8, 9, 10, 11]"
  by code_simp

text \<open>
  Towards the left neighbour even the rounded bound fails. In the 4 by 3 image whose only set
  pixel is the bottom-left one, the pixel \<open>(3, 0)\<close> was settled by the backward pass before
  its left neighbour \<open>(2, 0)\<close> got its final value, and exceeds that value plus 1 after
  rounding.
\<close>

lemma far_init:
  "initDist [0, 0, 0, 0, 0, 0, 0, 0, 255, 0, 0, 0] 4 3 =
     [4503599627370496000000000, 4503599627370496000000000, 4503599627370496000000000,
      4503599627370496000000000, 4503599627370496000000000, 4503599627370496000000000,
      4503599627370496000000000, 4503599627370496000000000, 0, 4503599627370496000000000,
      4503599627370496000000000, 4503599627370496000000000]"
  apply (simp only: initDist_def upt_12 mult_numeral_left_semiring_numeral list.map)
  apply (simp add: upt_12 fl_eval)
  done

lemma far_fwd:
  "fwdPass 4 3
     [4503599627370496000000000, 4503599627370496000000000, 4503599627370496000000000,
      4503599627370496000000000, 4503599627370496000000000, 4503599627370496000000000,
      4503599627370496000000000, 4503599627370496000000000, 0, 4503599627370496000000000,
      4503599627370496000000000, 4503599627370496000000000] =
     [4503599627370496000000000, 4503599627370496000000000, 4503599627370496000000000,
      4503599627370496000000000, 4503599627370496000000000, 4503599627370496000000000,
      4503599627370496000000000, 4503599627370496000000000, 0, 4503599627370496,
      9007199254740992, 13510798882111488]"
  apply (simp only: fwdPass_def upt_3 upt_4 fold_simps o_apply)
  apply (simp add: fwdPixel_eval fl_eval)
  done

lemma far_bwd:
  "bwdPass 4 3
     [4503599627370496000000000, 4503599627370496000000000, 4503599627370496000000000,
      4503599627370496000000000, 4503599627370496000000000, 4503599627370496000000000,
      4503599627370496000000000, 4503599627370496000000000, 0, 4503599627370496,
      9007199254740992, 13510798882111488] =
     [9007199254740992, 10808639535185920, 12610078741889024, 17113679443001344,
      4503599627370496, 6305039370944512, 10808639535185920, 15312239162556416,
      0, 4503599627370496, 9007199254740992, 13510798882111488]"
  apply (simp only: bwdPass_def upt_3 upt_4 rev.simps append.simps fold_simps o_apply)
  apply (simp add: bwdPixel_eval fl_eval)
  done

lemma far_transform:
  "distanceTransform [0, 0, 0, 0, 0, 0, 0, 0, 255, 0, 0, 0] 4 3 =
     [9007199254740992, 10808639535185920, 12610078741889024, 17113679443001344,
      4503599627370496, 6305039370944512, 10808639535185920, 15312239162556416,
      0, 4503599627370496, 9007199254740992, 13510798882111488]"
  by (simp only: distanceTransform_def far_init far_fwd far_bwd)

lemma distanceTransform_left_neighbour_exceeded:
  "to_float32 (to_double (distanceTransform [0, 0, 0, 0, 0, 0, 0, 0, 255, 0, 0, 0] 4 3 ! (0 * 4 + 2) + fl_one))
     < distanceTransform [0, 0, 0, 0, 0, 0, 0, 0, 255, 0, 0, 0] 4 3 ! (0 * 4 + 3)"
  by (simp add: far_transform fl_eval)

text \<open>
  The warning is emitted for the 200 by 200 image whose opaque pixels are those of the
  diagonal, as for every image with an opaque pixel.
\<close>

lemma thin_warning_diagonal_line:
  "thinWarning \<in> set (computeWarnings
      (map (\<lambda>i. if i div 200 = i mod 200 then 255 else 0) [0..<200 * 200]) 200 200 3 e mc ps)"
proof -
  have "rd (map (\<lambda>i. if i div 200 = i mod 200 then 255 else 0 :: nat) [0..<200 * 200]) 0 0 \<noteq> 0"
    by (simp add: rd_def)
  then have "\<exists>i<200 * 200.
      rd (map (\<lambda>i. if i div 200 = i mod 200 then 255 else 0 :: nat) [0..<200 * 200]) i 0 \<noteq> 0"
    by (intro exI [of _ 0]) simp
  then show ?thesis by (simp only: thinWarning_iff) simp
qed

text \<open>
  C1. The transform is taken of the alpha mask itself, so every opaque pixel has distance 0,
  \<open>minStroke\<close> is 0 whenever an opaque pixel exists (\<open>thinWarning_iff\<close>), and the thin-stroke
  warning is emitted for the uniformly opaque 200 by 200 image at thickness 3.
\<close>

theorem thin_warning_uniform_opaque:
  "thinWarning \<in> set (computeWarnings (replicate (200 * 200) 255) 200 200 3 e mc ps)"
proof -
  have "rd (replicate (200 * 200) (255::nat)) 0 0 \<noteq> 0" by (simp add: rd_def)
  then have "\<exists>i<200 * 200. rd (replicate (200 * 200) (255::nat)) i 0 \<noteq> 0" by (intro exI [of _ 0]) simp
  then show ?thesis by (simp only: thinWarning_iff) simp
qed

subsection \<open>Quantizer: the frequency map\<close>

lemma countLoop_fold: "countLoop rgba i m = fold bump (samplesFrom rgba i) m"
proof (induction rgba i m rule: countLoop.induct)
  case (1 rgba i m)
  show ?case
  proof (cases "i < length rgba")
    case True
    then show ?thesis
      using "1.IH" by (subst countLoop.simps, subst samplesFrom.simps) simp
  next
    case False
    then show ?thesis by (subst countLoop.simps, subst samplesFrom.simps) simp
  qed
qed

lemma bump_new: "c \<notin> fst ` set m \<Longrightarrow> bump c m = m @ [(c, 1)]"
  by (induction m) auto

lemma bump_keys: "map fst (bump c m) = (if c \<in> fst ` set m then map fst m else map fst m @ [c])"
  by (induction m) (fastforce simp add: image_iff)+

lemma bump_old:
  "c \<in> fst ` set m \<Longrightarrow> distinct (map fst m) \<Longrightarrow>
   bump c m = map (\<lambda>e. if fst e = c then (fst e, Suc (snd e)) else e) m"
proof (induction m)
  case Nil
  then show ?case by simp
next
  case (Cons e m)
  obtain k n where e: "e = (k, n)" by (cases e)
  show ?case
  proof (cases "k = c")
    case True
    then have "c \<notin> fst ` set m" using Cons.prems(2) e by auto
    then have "map (\<lambda>e. if fst e = c then (fst e, Suc (snd e)) else e) m = m"
      by (intro map_idI) auto
    then show ?thesis using True e by simp
  next
    case False
    then show ?thesis using Cons e by auto
  qed
qed

lemma firstIndex_append_old: "c \<in> set xs \<Longrightarrow> firstIndex (xs @ ys) c = firstIndex xs c"
  by (simp add: firstIndex_def takeWhile_append1)

lemma firstIndex_append_new: "c \<notin> set xs \<Longrightarrow> firstIndex (xs @ [c]) c = length xs"
  unfolding firstIndex_def by (subst takeWhile_append2) auto

lemma firstIndex_less: "c \<in> set xs \<Longrightarrow> firstIndex xs c < length xs"
  by (induction xs) (auto simp add: firstIndex_def)


text \<open>The frequency map after the samples \<open>xs\<close>.\<close>

lemma fold_bump_inv:
  "distinct (map fst (fold bump xs [])) \<and>
   set (map fst (fold bump xs [])) = set xs \<and>
   (\<forall>e\<in>set (fold bump xs []). snd e = count_list xs (fst e)) \<and>
   sorted_wrt (\<lambda>e1 e2. firstIndex xs (fst e1) < firstIndex xs (fst e2)) (fold bump xs [])"
proof (induction xs rule: rev_induct)
  case Nil
  show ?case by simp
next
  case (snoc x xs)
  let ?m = "fold bump xs []"
  have st: "fold bump (xs @ [x]) [] = bump x ?m" by simp
  from snoc have d: "distinct (map fst ?m)" and k: "set (map fst ?m) = set xs"
    and c: "\<forall>e\<in>set ?m. snd e = count_list xs (fst e)"
    and o: "sorted_wrt (\<lambda>e1 e2. firstIndex xs (fst e1) < firstIndex xs (fst e2)) ?m"
    by simp_all
  have keys: "fst ` set ?m = set xs" using k by simp
  show ?case
  proof (cases "x \<in> set xs")
    case True
    then have old: "x \<in> fst ` set ?m" using keys by simp
    let ?u = "\<lambda>e. if fst e = x then (fst e, Suc (snd e)) else e"
    have b: "bump x ?m = map ?u ?m" using old d by (rule bump_old)
    have fu: "fst (?u e) = fst e" for e :: "color \<times> nat" by simp
    have mk: "map fst (map ?u ?m) = map fst ?m" by (simp add: comp_def)
    have 1: "distinct (map fst (bump x ?m))" unfolding b mk by (rule d)
    have 2: "set (map fst (bump x ?m)) = set (xs @ [x])" unfolding b mk using k True by auto
    have 3: "\<forall>e\<in>set (bump x ?m). snd e = count_list (xs @ [x]) (fst e)"
      unfolding b using c by auto
    have o': "sorted_wrt (\<lambda>e1 e2. firstIndex (xs @ [x]) (fst e1) < firstIndex (xs @ [x]) (fst e2)) ?m"
    proof (rule sorted_wrt_mono_rel [OF _ o])
      fix e1 e2 assume "e1 \<in> set ?m" "e2 \<in> set ?m"
        and "firstIndex xs (fst e1) < firstIndex xs (fst e2)"
      moreover from this have "fst e1 \<in> set xs" "fst e2 \<in> set xs" using keys by auto
      ultimately show "firstIndex (xs @ [x]) (fst e1) < firstIndex (xs @ [x]) (fst e2)"
        by (simp add: firstIndex_append_old)
    qed
    have 4: "sorted_wrt (\<lambda>e1 e2. firstIndex (xs @ [x]) (fst e1) < firstIndex (xs @ [x]) (fst e2))
                   (bump x ?m)"
      unfolding b sorted_wrt_map fu by (rule o')
    from 1 2 3 4 show ?thesis unfolding st by blast
  next
    case False
    then have new: "x \<notin> fst ` set ?m" using keys by simp
    have b: "bump x ?m = ?m @ [(x, 1)]" using new by (rule bump_new)
    have 1: "distinct (map fst (bump x ?m))" unfolding b using d k False by simp
    have 2: "set (map fst (bump x ?m)) = set (xs @ [x])" unfolding b using k by auto
    have cx: "count_list xs x = 0" using False by (simp add: count_list_0_iff)
    have 3: "\<forall>e\<in>set (bump x ?m). snd e = count_list (xs @ [x]) (fst e)"
    proof
      fix e assume "e \<in> set (bump x ?m)"
      then consider "e \<in> set ?m" | "e = (x, 1)" unfolding b by auto
      then show "snd e = count_list (xs @ [x]) (fst e)"
      proof cases
        case 1
        then have "fst e \<noteq> x" using new by auto
        then show ?thesis using c 1 by simp
      next
        case 2
        then show ?thesis using cx by simp
      qed
    qed
    have o': "sorted_wrt (\<lambda>e1 e2. firstIndex (xs @ [x]) (fst e1) < firstIndex (xs @ [x]) (fst e2)) ?m"
    proof (rule sorted_wrt_mono_rel [OF _ o])
      fix e1 e2 assume "e1 \<in> set ?m" "e2 \<in> set ?m"
        and "firstIndex xs (fst e1) < firstIndex xs (fst e2)"
      moreover from this have "fst e1 \<in> set xs" "fst e2 \<in> set xs" using keys by auto
      ultimately show "firstIndex (xs @ [x]) (fst e1) < firstIndex (xs @ [x]) (fst e2)"
        by (simp add: firstIndex_append_old)
    qed
    have last: "firstIndex (xs @ [x]) (fst e) < firstIndex (xs @ [x]) x" if "e \<in> set ?m" for e
    proof -
      have "fst e \<in> set xs" using that keys by auto
      then show ?thesis
        using False by (simp add: firstIndex_append_old firstIndex_append_new firstIndex_less)
    qed
    have 4: "sorted_wrt (\<lambda>e1 e2. firstIndex (xs @ [x]) (fst e1) < firstIndex (xs @ [x]) (fst e2))
              (bump x ?m)"
      unfolding b using o' last by (simp add: sorted_wrt_append)
    from 1 2 3 4 show ?thesis unfolding st by blast
  qed
qed

subsection \<open>Quantizer: the palette\<close>

lemma sorted_wrt_filter_nth:
  assumes "sorted_wrt R (filter P ys)" "i < j" "j < length ys" "P (ys ! i)" "P (ys ! j)"
  shows "R (ys ! i) (ys ! j)"
proof -
  have i: "i < length ys" using assms(2,3) by simp
  have split: "ys = take i ys @ ys ! i # drop (Suc i) ys" using i by (rule id_take_nth_drop)
  have "ys ! j = drop (Suc i) ys ! (j - Suc i)" using assms(2,3) by simp
  moreover have "j - Suc i < length (drop (Suc i) ys)" using assms(2,3) by simp
  ultimately have mem: "ys ! j \<in> set (drop (Suc i) ys)" by (metis nth_mem)
  have "sorted_wrt R (filter P (take i ys) @ ys ! i # filter P (drop (Suc i) ys))"
    using assms(1,4) by (subst (asm) split) simp
  then have "\<forall>y\<in>set (filter P (drop (Suc i) ys)). R (ys ! i) y"
    by (simp add: sorted_wrt_append)
  then show ?thesis using mem assms(5) by simp
qed

lemma extractPaletteFast_sorted:
  "extractPaletteFast rgba w h k =
     map fst (take k (sort_key (\<lambda>e. - int (snd e)) (fold bump (sampledColors rgba) [])))"
  by (simp add: extractPaletteFast_def countLoop_fold sampledColors_def)

lemma extractPaletteFast_props:
  fixes rgba w h k
  defines "S \<equiv> sampledColors rgba" and "P \<equiv> extractPaletteFast rgba w h k"
  shows "distinct P"
    and "set P \<subseteq> set S"
    and "length P = min k (card (set S))"
    and "i < j \<Longrightarrow> j < length P \<Longrightarrow> count_list S (P ! j) \<le> count_list S (P ! i)"
    and "i < j \<Longrightarrow> j < length P \<Longrightarrow> count_list S (P ! j) = count_list S (P ! i) \<Longrightarrow>
           firstIndex S (P ! i) < firstIndex S (P ! j)"
    and "P \<noteq> [] \<Longrightarrow> count_list S c \<le> count_list S (P ! 0)"
proof -
  let ?f = "\<lambda>e :: color \<times> nat. - int (snd e)"
  let ?m = "fold bump S []"
  let ?L = "sort_key ?f ?m"
  have P: "P = map fst (take k ?L)" unfolding P_def S_def by (rule extractPaletteFast_sorted)
  have d: "distinct (map fst ?m)" and keys: "set (map fst ?m) = set S"
    and cnt: "\<forall>e\<in>set ?m. snd e = count_list S (fst e)"
    and ord: "sorted_wrt (\<lambda>e1 e2. firstIndex S (fst e1) < firstIndex S (fst e2)) ?m"
    using fold_bump_inv [of S] by simp_all
  have dm: "distinct ?m" "inj_on fst (set ?m)" using d by (simp_all add: distinct_map)
  have dL: "distinct (map fst ?L)" using dm by (simp add: distinct_map)
  have lenm: "length ?m = card (set S)"
    using distinct_card [OF d] keys by simp
  have lenP: "length P = min k (length ?L)" unfolding P by simp
  have nth: "P ! n = fst (?L ! n)" "?L ! n \<in> set ?m" "n < length ?L" if "n < length P" for n
  proof -
    show l: "n < length ?L" using that lenP by simp
    show "P ! n = fst (?L ! n)" using that l unfolding P by simp
    show "?L ! n \<in> set ?m" using l by (metis nth_mem set_sort)
  qed
  have cntP: "count_list S (P ! n) = snd (?L ! n)" if "n < length P" for n
    using nth [OF that] cnt by simp
  have sorted: "sorted (map ?f ?L)" by (rule sorted_sort_key)
  show "distinct P"
    unfolding P using dL by (simp add: take_map [symmetric] distinct_take)
  show "set P \<subseteq> set S"
  proof
    fix c assume "c \<in> set P"
    then obtain e where "e \<in> set (take k ?L)" "c = fst e" unfolding P by auto
    then have "e \<in> set ?m" by (metis in_set_takeD set_sort)
    then show "c \<in> set S" using keys \<open>c = fst e\<close> by auto
  qed
  show "length P = min k (card (set S))" using lenP lenm by simp
  show "count_list S (P ! j) \<le> count_list S (P ! i)" if "i < j" "j < length P"
  proof -
    have i: "i < length P" using that by simp
    have "map ?f ?L ! i \<le> map ?f ?L ! j"
      using sorted that nth(3) [OF that(2)] by (intro sorted_nth_mono) simp_all
    then have "snd (?L ! j) \<le> snd (?L ! i)" using nth(3) [OF i] nth(3) [OF that(2)] by simp
    then show ?thesis using cntP [OF i] cntP [OF that(2)] by simp
  qed
  show "firstIndex S (P ! i) < firstIndex S (P ! j)"
    if "i < j" "j < length P" "count_list S (P ! j) = count_list S (P ! i)"
  proof -
    have i: "i < length P" using that by simp
    let ?k = "?f (?L ! i)"
    have eq: "?f (?L ! j) = ?k" using that(3) cntP [OF i] cntP [OF that(2)] by simp
    have "filter (\<lambda>y. ?f y = ?k) ?L = filter (\<lambda>y. ?f y = ?k) ?m" by (rule sort_key_stable)
    moreover have "sorted_wrt (\<lambda>e1 e2. firstIndex S (fst e1) < firstIndex S (fst e2))
                     (filter (\<lambda>y. ?f y = ?k) ?m)"
      using ord by (rule sorted_wrt_filter)
    ultimately have sw: "sorted_wrt (\<lambda>e1 e2. firstIndex S (fst e1) < firstIndex S (fst e2))
                       (filter (\<lambda>y. ?f y = ?k) ?L)" by simp
    have "firstIndex S (fst (?L ! i)) < firstIndex S (fst (?L ! j))"
      by (rule sorted_wrt_filter_nth [OF sw that(1) nth(3) [OF that(2)]]) (simp_all add: eq)
    then show ?thesis using nth(1) [OF i] nth(1) [OF that(2)] by simp
  qed
  show "count_list S c \<le> count_list S (P ! 0)" if ne: "P \<noteq> []"
  proof (cases "c \<in> set S")
    case False
    then show ?thesis by (simp add: count_list_0_iff)
  next
    case True
    have 0: "0 < length P" using ne by simp
    from True keys have "c \<in> fst ` set ?m" by simp
    then obtain e where e: "e \<in> set ?m" "fst e = c" by (auto simp add: image_iff)
    then have "e \<in> set ?L" by simp
    then obtain n where n: "n < length ?L" "?L ! n = e" by (metis in_set_conv_nth)
    have "map ?f ?L ! 0 \<le> map ?f ?L ! n"
      using sorted n(1) by (intro sorted_nth_mono) simp_all
    then have "snd e \<le> snd (?L ! 0)" using n nth(3) [OF 0] by simp
    then show ?thesis using cnt e cntP [OF 0] by simp
  qed
qed

text \<open>The palette a successful quantization returns is the one \<open>extractPaletteFast\<close> builds.\<close>

lemma quantizeColors_palette:
  assumes "quantizeColors resizeNearest rgbaData ri maxCols = Inr res"
  shows "\<exists>downscaled.
           resizeNearest rgbaData ri (width ri div quantScale ri) (height ri div quantScale ri)
             = Some downscaled \<and>
           q_palette res = extractPaletteFast downscaled (width ri div quantScale ri)
                             (height ri div quantScale ri) maxCols \<and>
           q_paletteSize res = length (q_palette res)"
  using assms
  by (auto simp add: quantizeColors_def Let_def split: option.splits sum.splits)

text \<open>
  C8. The palette has no entry twice. Its entries are in descending order of their frequency
  among the sampled pixels, entries of equal frequency in the order in which their colours
  first occur among the samples (the insertion order of the frequency map), and the first
  entry is a most frequent colour.
\<close>

theorem extractPaletteFast_palette:
  "distinct (extractPaletteFast rgba w h k) \<and>
   (\<forall>i j. i < j \<and> j < length (extractPaletteFast rgba w h k) \<longrightarrow>
      count_list (sampledColors rgba) (extractPaletteFast rgba w h k ! j)
        \<le> count_list (sampledColors rgba) (extractPaletteFast rgba w h k ! i) \<and>
      (count_list (sampledColors rgba) (extractPaletteFast rgba w h k ! j)
         = count_list (sampledColors rgba) (extractPaletteFast rgba w h k ! i) \<longrightarrow>
       firstIndex (sampledColors rgba) (extractPaletteFast rgba w h k ! i)
         < firstIndex (sampledColors rgba) (extractPaletteFast rgba w h k ! j))) \<and>
   (extractPaletteFast rgba w h k \<noteq> [] \<longrightarrow>
      (\<forall>c. count_list (sampledColors rgba) c
             \<le> count_list (sampledColors rgba) (extractPaletteFast rgba w h k ! 0)))"
  using extractPaletteFast_props(1,4,5,6) [where rgba = rgba and w = w and h = h and k = k] by blast

lemma buf4_samples:
  "sampledColors [255, 0, 0, 255, 9, 9, 9, 9, 9, 9, 9, 9, 9, 9, 9, 9,
                  0, 0, 255, 255, 9, 9, 9, 9, 9, 9, 9, 9, 9, 9, 9, 9,
                  255, 0, 0, 255, 9, 9, 9, 9, 9, 9, 9, 9, 9, 9, 9, 9,
                  0, 128, 0, 255, 9, 9, 9, 9, 9, 9, 9, 9, 9, 9, 9, 9] =
     [\<lparr>cr = 256, cg = 0, cb = 0, ca = 255\<rparr>, \<lparr>cr = 0, cg = 0, cb = 256, ca = 255\<rparr>,
      \<lparr>cr = 256, cg = 0, cb = 0, ca = 255\<rparr>, \<lparr>cr = 0, cg = 128, cb = 0, ca = 255\<rparr>]"
  by code_simp

lemma buf4_palette:
  "extractPaletteFast [255, 0, 0, 255, 9, 9, 9, 9, 9, 9, 9, 9, 9, 9, 9, 9,
                  0, 0, 255, 255, 9, 9, 9, 9, 9, 9, 9, 9, 9, 9, 9, 9,
                  255, 0, 0, 255, 9, 9, 9, 9, 9, 9, 9, 9, 9, 9, 9, 9,
                  0, 128, 0, 255, 9, 9, 9, 9, 9, 9, 9, 9, 9, 9, 9, 9] 16 1 3 =
     [\<lparr>cr = 256, cg = 0, cb = 0, ca = 255\<rparr>, \<lparr>cr = 0, cg = 0, cb = 256, ca = 255\<rparr>,
      \<lparr>cr = 0, cg = 128, cb = 0, ca = 255\<rparr>]"
  by code_simp

theorem extractPaletteFast_palette_witness:
  "(1::nat) < 2 \<and>
   2 < length (extractPaletteFast
                [255, 0, 0, 255, 9, 9, 9, 9, 9, 9, 9, 9, 9, 9, 9, 9,
                 0, 0, 255, 255, 9, 9, 9, 9, 9, 9, 9, 9, 9, 9, 9, 9,
                 255, 0, 0, 255, 9, 9, 9, 9, 9, 9, 9, 9, 9, 9, 9, 9,
                 0, 128, 0, 255, 9, 9, 9, 9, 9, 9, 9, 9, 9, 9, 9, 9] 16 1 3) \<and>
   extractPaletteFast
     [255, 0, 0, 255, 9, 9, 9, 9, 9, 9, 9, 9, 9, 9, 9, 9,
      0, 0, 255, 255, 9, 9, 9, 9, 9, 9, 9, 9, 9, 9, 9, 9,
      255, 0, 0, 255, 9, 9, 9, 9, 9, 9, 9, 9, 9, 9, 9, 9,
      0, 128, 0, 255, 9, 9, 9, 9, 9, 9, 9, 9, 9, 9, 9, 9] 16 1 3 \<noteq> [] \<and>
   distinct (extractPaletteFast
     [255, 0, 0, 255, 9, 9, 9, 9, 9, 9, 9, 9, 9, 9, 9, 9,
      0, 0, 255, 255, 9, 9, 9, 9, 9, 9, 9, 9, 9, 9, 9, 9,
      255, 0, 0, 255, 9, 9, 9, 9, 9, 9, 9, 9, 9, 9, 9, 9,
      0, 128, 0, 255, 9, 9, 9, 9, 9, 9, 9, 9, 9, 9, 9, 9] 16 1 3) \<and>
   count_list (sampledColors
     [255, 0, 0, 255, 9, 9, 9, 9, 9, 9, 9, 9, 9, 9, 9, 9,
      0, 0, 255, 255, 9, 9, 9, 9, 9, 9, 9, 9, 9, 9, 9, 9,
      255, 0, 0, 255, 9, 9, 9, 9, 9, 9, 9, 9, 9, 9, 9, 9,
      0, 128, 0, 255, 9, 9, 9, 9, 9, 9, 9, 9, 9, 9, 9, 9])
     \<lparr>cr = 0, cg = 128, cb = 0, ca = 255\<rparr> =
   count_list (sampledColors
     [255, 0, 0, 255, 9, 9, 9, 9, 9, 9, 9, 9, 9, 9, 9, 9,
      0, 0, 255, 255, 9, 9, 9, 9, 9, 9, 9, 9, 9, 9, 9, 9,
      255, 0, 0, 255, 9, 9, 9, 9, 9, 9, 9, 9, 9, 9, 9, 9,
      0, 128, 0, 255, 9, 9, 9, 9, 9, 9, 9, 9, 9, 9, 9, 9])
     \<lparr>cr = 0, cg = 0, cb = 256, ca = 255\<rparr> \<and>
   firstIndex (sampledColors
     [255, 0, 0, 255, 9, 9, 9, 9, 9, 9, 9, 9, 9, 9, 9, 9,
      0, 0, 255, 255, 9, 9, 9, 9, 9, 9, 9, 9, 9, 9, 9, 9,
      255, 0, 0, 255, 9, 9, 9, 9, 9, 9, 9, 9, 9, 9, 9, 9,
      0, 128, 0, 255, 9, 9, 9, 9, 9, 9, 9, 9, 9, 9, 9, 9])
     \<lparr>cr = 0, cg = 0, cb = 256, ca = 255\<rparr> <
   firstIndex (sampledColors
     [255, 0, 0, 255, 9, 9, 9, 9, 9, 9, 9, 9, 9, 9, 9, 9,
      0, 0, 255, 255, 9, 9, 9, 9, 9, 9, 9, 9, 9, 9, 9, 9,
      255, 0, 0, 255, 9, 9, 9, 9, 9, 9, 9, 9, 9, 9, 9, 9,
      0, 128, 0, 255, 9, 9, 9, 9, 9, 9, 9, 9, 9, 9, 9, 9])
     \<lparr>cr = 0, cg = 128, cb = 0, ca = 255\<rparr>"
proof -
  let ?buf = "[255, 0, 0, 255, 9, 9, 9, 9, 9, 9, 9, 9, 9, 9, 9, 9,
               0, 0, 255, 255, 9, 9, 9, 9, 9, 9, 9, 9, 9, 9, 9, 9,
               255, 0, 0, 255, 9, 9, 9, 9, 9, 9, 9, 9, 9, 9, 9, 9,
               0, 128, 0, 255, 9, 9, 9, 9, 9, 9, 9, 9, 9, 9, 9, 9 :: nat]"
  have cnt: "count_list (sampledColors ?buf) \<lparr>cr = 0, cg = 128, cb = 0, ca = 255\<rparr> =
             count_list (sampledColors ?buf) \<lparr>cr = 0, cg = 0, cb = 256, ca = 255\<rparr>"
    by (simp add: buf4_samples)
  from extractPaletteFast_palette [of ?buf 16 1 3] cnt
  show ?thesis
    unfolding buf4_palette
    by (elim conjE allE [of _ 1] allE [of _ 2]) simp
qed

subsection \<open>Quantizer: palette size, warning and remapping\<close>

lemma reduced_neq: "reducedWarning m \<noteq> thinWarning" "reducedWarning m \<noteq> denseWarning"
  by (simp_all add: thinWarning_def denseWarning_def reducedWarning_def)

lemma reducedWarning_iff:
  "reducedWarning k \<in> set (computeWarnings alphaMask w h t e (Some k) (Some ps)) \<longleftrightarrow> k < ps"
  using reduced_neq [of k]
  by (auto simp add: computeWarnings_def Let_def split_beta split: option.splits)

lemma reducedWarning_none:
  "reducedWarning k \<notin> set (computeWarnings alphaMask w h t e None ps) \<and>
   reducedWarning k \<notin> set (computeWarnings alphaMask w h t e mc None)"
  using reduced_neq [of k]
  by (auto simp add: computeWarnings_def Let_def split_beta split: option.splits)

text \<open>The earlier extractor also returns at most \<open>k\<close> entries, all different.\<close>

lemma paletteLoop_inv:
  "distinct palette \<Longrightarrow> length palette \<le> k \<Longrightarrow>
   distinct (paletteLoop rgba k i palette) \<and> length (paletteLoop rgba k i palette) \<le> k"
proof (induction rgba k i palette rule: paletteLoop.induct)
  case (1 rgba k i palette)
  show ?case
  proof (cases "i < length rgba \<and> length palette < k")
    case True
    let ?p = "if rawAt rgba i \<in> set palette then palette else palette @ [rawAt rgba i]"
    have "distinct ?p" "length ?p \<le> k" using "1.prems" True by auto
    then have "distinct (paletteLoop rgba k (i + 4) ?p) \<and> length (paletteLoop rgba k (i + 4) ?p) \<le> k"
      using "1.IH" True by blast
    then show ?thesis using True by (subst (1 2) paletteLoop.simps) simp
  next
    case False
    then show ?thesis using "1.prems" by (subst (1 2) paletteLoop.simps) auto
  qed
qed

lemma extractPaletteFromImage_bound:
  "distinct (extractPaletteFromImage rgba w h k) \<and> length (extractPaletteFromImage rgba w h k) \<le> k"
  unfolding extractPaletteFromImage_def by (rule paletteLoop_inv) simp_all

text \<open>The nearest entry is an entry of the palette.\<close>

lemma closestStep_mem:
  assumes "\<exists>c\<in>S. fst st = Some c" "x \<in> S"
  shows "\<exists>c\<in>S. fst (closestStep r g b x st) = Some c"
  using assms by (auto simp add: closestStep_def Let_def split: option.splits)

lemma closest_fold_mem:
  assumes "\<exists>c\<in>S. fst st = Some c" "set xs \<subseteq> S"
  shows "\<exists>c\<in>S. fst (fold (closestStep r g b) xs st) = Some c"
  using assms
proof (induction xs arbitrary: st)
  case Nil
  then show ?case by simp
next
  case (Cons x xs)
  have "\<exists>c\<in>S. fst (closestStep r g b x st) = Some c"
    using Cons.prems by (intro closestStep_mem) auto
  then show ?case using Cons by simp
qed

lemma closestColor_mem:
  assumes "palette \<noteq> []"
  shows "\<exists>c\<in>set palette. closestColor palette r g b = Some c"
proof -
  obtain p ps where p: "palette = p # ps" using assms by (cases palette) auto
  have "\<exists>c\<in>set palette. fst (first_entry palette, None :: int option) = Some c"
    using p by (simp add: first_entry_def)
  then show ?thesis unfolding closestColor_def by (rule closest_fold_mem) simp
qed

lemma pixelClosest_mem:
  assumes "palette \<noteq> []"
  shows "\<exists>c\<in>set palette. pixelClosest palette rgbaData i = Some c"
proof (cases "i + 2 < length rgbaData")
  case True
  then show ?thesis using closestColor_mem [OF assms] by (simp add: pixelClosest_def)
next
  case False
  obtain p ps where "palette = p # ps" using assms by (cases palette) auto
  then show ?thesis using False by (simp add: pixelClosest_def first_entry_def)
qed

text \<open>
  What remapping does for any non-empty palette: it keeps the alpha byte of every pixel and
  writes the channels of a palette entry modulo 256.
\<close>

lemma remapLoop_pixels:
  "palette \<noteq> [] \<Longrightarrow> length q = length rgbaData \<Longrightarrow>
    \<exists>q'. remapLoop palette rgbaData i q = Inr q' \<and> length q' = length rgbaData \<and>
         (\<forall>j<i. q' ! j = q ! j) \<and>
         (\<forall>n. i + 4 * n < length rgbaData \<longrightarrow>
            (\<exists>c\<in>set palette. pixelClosest palette rgbaData (i + 4 * n) = Some c \<and>
               q' ! (i + 4 * n) = cr c mod 256 \<and>
               (i + 4 * n + 1 < length rgbaData \<longrightarrow> q' ! (i + 4 * n + 1) = cg c mod 256) \<and>
               (i + 4 * n + 2 < length rgbaData \<longrightarrow> q' ! (i + 4 * n + 2) = cb c mod 256) \<and>
               (i + 4 * n + 3 < length rgbaData \<longrightarrow>
                  q' ! (i + 4 * n + 3) = rgbaData ! (i + 4 * n + 3))))"
proof (induction palette rgbaData i q rule: remapLoop.induct)
  case (1 palette rgbaData i q)
  show ?case
  proof (cases "i < length rgbaData")
    case False
    then show ?thesis using "1.prems" by (subst remapLoop.simps) simp
  next
    case True
    note ne = "1.prems"(1)
    obtain c where c: "c \<in> set palette" "pixelClosest palette rgbaData i = Some c"
      using pixelClosest_mem [OF ne, of rgbaData i] by blast
    let ?q1 = "q[i := cr c mod 256, i + 1 := cg c mod 256, i + 2 := cb c mod 256,
                 i + 3 := rd rgbaData (i + 3) 0]"
    have len1: "length ?q1 = length rgbaData" using "1.prems" by simp
    from "1.IH" [OF True c(2) ne len1]
    obtain q' where q': "remapLoop palette rgbaData (i + 4) ?q1 = Inr q'"
        "length q' = length rgbaData" "\<forall>j<i + 4. q' ! j = ?q1 ! j"
        "\<forall>n. i + 4 + 4 * n < length rgbaData \<longrightarrow>
            (\<exists>c\<in>set palette. pixelClosest palette rgbaData (i + 4 + 4 * n) = Some c \<and>
               q' ! (i + 4 + 4 * n) = cr c mod 256 \<and>
               (i + 4 + 4 * n + 1 < length rgbaData \<longrightarrow> q' ! (i + 4 + 4 * n + 1) = cg c mod 256) \<and>
               (i + 4 + 4 * n + 2 < length rgbaData \<longrightarrow> q' ! (i + 4 + 4 * n + 2) = cb c mod 256) \<and>
               (i + 4 + 4 * n + 3 < length rgbaData \<longrightarrow>
                  q' ! (i + 4 + 4 * n + 3) = rgbaData ! (i + 4 + 4 * n + 3)))"
      by blast
    have run: "remapLoop palette rgbaData i q = Inr q'"
      using True c(2) q'(1) by (subst remapLoop.simps) simp
    have old: "\<forall>j<i. q' ! j = q ! j" using q'(3) by simp
    have first: "q' ! i = cr c mod 256"
        "i + 1 < length rgbaData \<longrightarrow> q' ! (i + 1) = cg c mod 256"
        "i + 2 < length rgbaData \<longrightarrow> q' ! (i + 2) = cb c mod 256"
        "i + 3 < length rgbaData \<longrightarrow> q' ! (i + 3) = rgbaData ! (i + 3)"
      using q'(3) True "1.prems" by (simp_all add: rd_def)
    have pix: "\<exists>c\<in>set palette. pixelClosest palette rgbaData (i + 4 * n) = Some c \<and>
               q' ! (i + 4 * n) = cr c mod 256 \<and>
               (i + 4 * n + 1 < length rgbaData \<longrightarrow> q' ! (i + 4 * n + 1) = cg c mod 256) \<and>
               (i + 4 * n + 2 < length rgbaData \<longrightarrow> q' ! (i + 4 * n + 2) = cb c mod 256) \<and>
               (i + 4 * n + 3 < length rgbaData \<longrightarrow>
                  q' ! (i + 4 * n + 3) = rgbaData ! (i + 4 * n + 3))"
      if n: "i + 4 * n < length rgbaData" for n
    proof (cases n)
      case 0
      then show ?thesis using c first by auto
    next
      case (Suc m)
      then have e: "i + 4 * n = i + 4 + 4 * m" by simp
      show ?thesis using q'(4) [rule_format, of m] n unfolding e by blast
    qed
    from run q'(2) old pix show ?thesis by blast
  qed
qed


lemma applyPaletteToImage_pixels:
  assumes "palette \<noteq> []"
  shows "\<exists>q. applyPaletteToImage rgbaData palette = Inr q \<and> length q = length rgbaData \<and>
           (\<forall>n. 4 * n + 3 < length rgbaData \<longrightarrow>
              q ! (4 * n + 3) = rgbaData ! (4 * n + 3) \<and>
              (\<exists>c\<in>set palette. q ! (4 * n) = cr c mod 256 \<and> q ! (4 * n + 1) = cg c mod 256 \<and>
                                 q ! (4 * n + 2) = cb c mod 256))"
proof -
  from remapLoop_pixels [OF assms, of "replicate (length rgbaData) 0" rgbaData 0]
  obtain q where q: "remapLoop palette rgbaData 0 (replicate (length rgbaData) 0) = Inr q"
      "length q = length rgbaData"
      "\<forall>n. 0 + 4 * n < length rgbaData \<longrightarrow>
            (\<exists>c\<in>set palette. pixelClosest palette rgbaData (0 + 4 * n) = Some c \<and>
               q ! (0 + 4 * n) = cr c mod 256 \<and>
               (0 + 4 * n + 1 < length rgbaData \<longrightarrow> q ! (0 + 4 * n + 1) = cg c mod 256) \<and>
               (0 + 4 * n + 2 < length rgbaData \<longrightarrow> q ! (0 + 4 * n + 2) = cb c mod 256) \<and>
               (0 + 4 * n + 3 < length rgbaData \<longrightarrow>
                  q ! (0 + 4 * n + 3) = rgbaData ! (0 + 4 * n + 3)))"
    by auto
  have "q ! (4 * n + 3) = rgbaData ! (4 * n + 3) \<and>
        (\<exists>c\<in>set palette. q ! (4 * n) = cr c mod 256 \<and> q ! (4 * n + 1) = cg c mod 256 \<and>
                           q ! (4 * n + 2) = cb c mod 256)"
    if "4 * n + 3 < length rgbaData" for n
    using q(3) [rule_format, of n] that by auto
  then show ?thesis using q(1,2) by (auto simp add: applyPaletteToImage_def)
qed

lemma samplesFrom_nonempty: "i < length rgba \<Longrightarrow> samplesFrom rgba i \<noteq> []"
  by (subst samplesFrom.simps) simp

lemma extractPaletteFast_nonempty:
  assumes "rgba \<noteq> []" "0 < k"
  shows "extractPaletteFast rgba w h k \<noteq> []"
proof -
  have "sampledColors rgba \<noteq> []"
    unfolding sampledColors_def using assms(1) by (intro samplesFrom_nonempty) simp
  then have "0 < card (set (sampledColors rgba))" by (simp add: card_gt_0_iff)
  then have "0 < length (extractPaletteFast rgba w h k)"
    using assms(2) extractPaletteFast_props(3) [where rgba = rgba and w = w and h = h and k = k]
    by simp
  then show ?thesis by simp
qed

lemma quantizeColors_pixels:
  assumes "resizeNearest rgbaData ri (width ri div quantScale ri) (height ri div quantScale ri)
             = Some downscaled"
    and "downscaled \<noteq> []" "0 < maxCols"
  shows "\<exists>res. quantizeColors resizeNearest rgbaData ri maxCols = Inr res \<and>
           q_palette res \<noteq> [] \<and> length (q_data res) = length rgbaData \<and>
           (\<forall>n. 4 * n + 3 < length rgbaData \<longrightarrow>
              q_data res ! (4 * n + 3) = rgbaData ! (4 * n + 3) \<and>
              (\<exists>c\<in>set (q_palette res).
                 q_data res ! (4 * n) = cr c mod 256 \<and> q_data res ! (4 * n + 1) = cg c mod 256 \<and>
                 q_data res ! (4 * n + 2) = cb c mod 256))"
proof -
  let ?p = "extractPaletteFast downscaled (width ri div quantScale ri)
              (height ri div quantScale ri) maxCols"
  have ne: "?p \<noteq> []" using assms(2,3) by (rule extractPaletteFast_nonempty)
  from applyPaletteToImage_pixels [OF ne, of rgbaData]
  obtain q where q: "applyPaletteToImage rgbaData ?p = Inr q" "length q = length rgbaData"
      "\<forall>n. 4 * n + 3 < length rgbaData \<longrightarrow>
              q ! (4 * n + 3) = rgbaData ! (4 * n + 3) \<and>
              (\<exists>c\<in>set ?p. q ! (4 * n) = cr c mod 256 \<and> q ! (4 * n + 1) = cg c mod 256 \<and>
                            q ! (4 * n + 2) = cb c mod 256)"
    by blast
  have "quantizeColors resizeNearest rgbaData ri maxCols =
          Inr \<lparr>q_data = q, q_info = ri, q_palette = ?p, q_paletteSize = length ?p\<rparr>"
    using assms(1) q(1) by (simp add: quantizeColors_def Let_def)
  then show ?thesis using ne q(2,3) by simp
qed

lemma quantizeColors_paletteSize:
  assumes "resizeNearest rgbaData ri (width ri div quantScale ri) (height ri div quantScale ri)
             = Some downscaled"
    and "downscaled \<noteq> []" "0 < maxCols"
  shows "\<exists>res. quantizeColors resizeNearest rgbaData ri maxCols = Inr res \<and>
           q_paletteSize res = length (q_palette res) \<and>
           q_paletteSize res = min maxCols (card (set (sampledColors downscaled)))"
proof -
  let ?p = "extractPaletteFast downscaled (width ri div quantScale ri)
              (height ri div quantScale ri) maxCols"
  have ne: "?p \<noteq> []" using assms(2,3) by (rule extractPaletteFast_nonempty)
  from applyPaletteToImage_pixels [OF ne, of rgbaData]
  obtain q where q: "applyPaletteToImage rgbaData ?p = Inr q" by blast
  have "quantizeColors resizeNearest rgbaData ri maxCols =
          Inr \<lparr>q_data = q, q_info = ri, q_palette = ?p, q_paletteSize = length ?p\<rparr>"
    using assms(1) q(1) by (simp add: quantizeColors_def Let_def)
  moreover have "length ?p = min maxCols (card (set (sampledColors downscaled)))"
    by (rule extractPaletteFast_props(3))
  ultimately show ?thesis by simp
qed

lemma photo_scale: "quantScale \<lparr>width = 104, height = 2\<rparr> = 2"
  by code_simp

lemma photo_samples:
  "card (set (sampledColors (concat (map (\<lambda>k. [16 * (k div 4), 0, 0, 255]) [0..<52])))) = 13"
  by code_simp

text \<open>
  C3. \<open>processEmbroidery\<close> hands \<open>computeWarnings\<close> the \<open>paletteSize\<close> of the quantizer, the
  length of a palette that \<open>extractPaletteFast\<close> has already cut to \<open>maxColors\<close> entries, so
  the test \<open>paletteSize > maxColors\<close> of the palette reduction notice never holds there. A
  104 by 2 image of 13 colours, runs of eight pixels with red \<open>0, 16, \<dots>, 192\<close>, whose
  reduction to 52 by 1 shows all 13 to the sampler, quantized with \<open>maxColors = 6\<close>: the
  palette has 6 entries and the warnings lack \<open>Reduced colors to 6\<close>.
\<close>

theorem reduced_warning_missing:
  "\<exists>res. quantizeColors
            (\<lambda>data ri dw dh. Some (concat (map (\<lambda>k. [16 * (k div 4), 0, 0, 255]) [0..<dw * dh])))
            (concat (map (\<lambda>i. [16 * ((i mod 104) div 8), 0, 0, 255]) [0..<208]))
            \<lparr>width = 104, height = 2\<rparr> 6 = Inr res \<and>
         q_paletteSize res = 6 \<and> length (q_palette res) = 6 \<and>
         reducedWarning 6 \<notin>
           set (computeWarnings alphaMask 104 2 t e (Some 6) (Some (q_paletteSize res)))"
proof -
  let ?data = "concat (map (\<lambda>i. [16 * ((i mod 104) div 8), 0, 0, 255]) [0..<208])"
  let ?ri = "\<lparr>width = 104, height = 2\<rparr>"
  let ?ds = "concat (map (\<lambda>k. [16 * (k div 4), 0, 0, 255]) [0..<52])"
  let ?rs = "\<lambda>data (ri::raster_info) dw dh.
               Some (concat (map (\<lambda>k. [16 * (k div 4), 0, 0, 255]) [0..<dw * dh]))"
  have r: "?rs ?data ?ri (width ?ri div quantScale ?ri) (height ?ri div quantScale ?ri) = Some ?ds"
    by (simp add: photo_scale)
  have ne: "?ds \<noteq> []" by code_simp
  from quantizeColors_paletteSize [of ?rs ?data ?ri ?ds 6, OF r ne]
  obtain res where res: "quantizeColors ?rs ?data ?ri 6 = Inr res"
      "q_paletteSize res = length (q_palette res)"
      "q_paletteSize res = min 6 (card (set (sampledColors ?ds)))"
    by auto
  have six: "q_paletteSize res = 6" using res(3) by (simp add: photo_samples)
  have "reducedWarning 6 \<notin> set (computeWarnings alphaMask 104 2 t e (Some 6) (Some (q_paletteSize res)))"
    by (simp add: six reducedWarning_iff)
  with res(1,2) six show ?thesis by auto
qed

text \<open>
  C2. Rounding a channel of 248 or more to the nearest multiple of 16 gives 256, which is
  stored into the byte buffer as 0. A white 2 by 2 image, whose nearest-neighbour reduction
  is one white pixel, gets the palette entry \<open>(256, 256, 256, 255)\<close> and comes out black: no
  pixel has the colour of a palette entry.
\<close>

theorem quantizeColors_white_turns_black:
  "quantizeColors (\<lambda>data ri dw dh. Some (replicate (4 * dw * dh) 255)) (replicate 16 255)
     \<lparr>width = 2, height = 2\<rparr> 4 =
   Inr \<lparr>q_data = [0, 0, 0, 255, 0, 0, 0, 255, 0, 0, 0, 255, 0, 0, 0, 255],
        q_info = \<lparr>width = 2, height = 2\<rparr>,
        q_palette = [\<lparr>cr = 256, cg = 256, cb = 256, ca = 255\<rparr>],
        q_paletteSize = 1\<rparr>"
  by code_simp

subsection \<open>Textures\<close>




subsection \<open>Orientation bins\<close>

lemma binClamp_range: "0 < numBins \<Longrightarrow> numBins \<le> 256 \<Longrightarrow> binClamp numBins b < numBins"
  by (auto simp add: binClamp_def Let_def)

lemma numBinsFor_range: "0 < numBinsFor m mode \<and> numBinsFor m mode \<le> 256"
  by (simp add: numBinsFor_def)

lemma binsFromGradients_range:
  "0 < numBins \<Longrightarrow> numBins \<le> 256 \<Longrightarrow> \<forall>b\<in>set (binsFromGradients gx gy w h numBins). b < numBins"
  by (simp add: binsFromGradients_def binOf_def Let_def binClamp_range)

text \<open>
  C5. Every byte of the upscaled bins raster is below the active bin count (4, 6, 8 or 12),
  given that the nearest-kernel resize of the image library only copies samples of its
  source. The clamp bounds the bin whatever value the scaled angle has.
\<close>

theorem computeOrientationBins_range:
  assumes "\<And>src w h W H. set (resizeNearest src w h W H) \<subseteq> set src"
  shows "\<forall>i<length (computeOrientationBins resizeNearest gx gy ri orientationMethod mode).
           computeOrientationBins resizeNearest gx gy ri orientationMethod mode ! i
             < numBinsFor orientationMethod mode"
proof (intro allI impI)
  fix i assume i: "i < length (computeOrientationBins resizeNearest gx gy ri orientationMethod mode)"
  let ?n = "numBinsFor orientationMethod mode"
  let ?as = "if mode = ''logo'' then 300 else 400 :: nat"
  let ?small = "binsFromGradients gx gy (min (width ri) ?as) (min (height ri) ?as) ?n"
  have "computeOrientationBins resizeNearest gx gy ri orientationMethod mode ! i
          \<in> set (computeOrientationBins resizeNearest gx gy ri orientationMethod mode)"
    using i by (rule nth_mem)
  moreover have "set (computeOrientationBins resizeNearest gx gy ri orientationMethod mode)
                   \<subseteq> set ?small"
    unfolding computeOrientationBins_def Let_def by (rule assms)
  ultimately have "computeOrientationBins resizeNearest gx gy ri orientationMethod mode ! i \<in> set ?small"
    by (rule rev_subsetD)
  then show "computeOrientationBins resizeNearest gx gy ri orientationMethod mode ! i < ?n"
    using binsFromGradients_range [of ?n gx gy] numBinsFor_range [of orientationMethod mode] by blast
qed

lemma binOf_right: "binOf 6 0 1 = 0"
  by (simp add: binOf_def atan2_def binClamp_def)

lemma binOf_up: "binOf 6 1 0 = 3"
  by (simp add: binOf_def atan2_def binClamp_def)

lemma small_bins:
  "computeOrientationBins (\<lambda>src w h W H. src) [1, 0, 1, 0] [0, 1, 0, 1]
     \<lparr>width = 2, height = 2\<rparr> ''binned-8'' ''photo'' = [0, 3, 0, 3]"
  by (simp add: computeOrientationBins_def binsFromGradients_def numBinsFor_def upt_4 rd_def
        binOf_right binOf_up)

theorem computeOrientationBins_range_witness:
  "computeOrientationBins (\<lambda>src w h W H. src) [1, 0, 1, 0] [0, 1, 0, 1]
     \<lparr>width = 2, height = 2\<rparr> ''binned-8'' ''photo'' ! 3 = 3 \<and>
   computeOrientationBins (\<lambda>src w h W H. src) [1, 0, 1, 0] [0, 1, 0, 1]
     \<lparr>width = 2, height = 2\<rparr> ''binned-8'' ''photo'' ! 3 < numBinsFor ''binned-8'' ''photo''"
proof -
  have "set ((\<lambda>src w h W H. src) src w h W H) \<subseteq> set src"
    for src :: "nat list" and w h W H :: nat by simp
  note t = computeOrientationBins_range [of "\<lambda>src w h W H. src", OF this,
      of "[1, 0, 1, 0]" "[0, 1, 0, 1]" "\<lparr>width = 2, height = 2\<rparr>" "''binned-8''" "''photo''"]
  from t [rule_format, of 3] show ?thesis by (simp add: small_bins)
qed

end
